theory Spec2Isabelle
  imports Main
begin

section \<open>Constants and Python primitives\<close>

definition WORD_LENGTH :: nat where
  "WORD_LENGTH = 5"

definition MAX_GUESSES :: nat where
  "MAX_GUESSES = 6"

text \<open>
  Exceptions the modelled code can raise: an index outside a list (also what
  \<open>random.choice\<close> raises on an empty sequence) and a key missing from a dictionary.
\<close>

datatype py_error = IndexError | KeyError

text \<open>\<open>d.get(k, dflt)\<close> on a dictionary.\<close>

definition dict_get :: "('k \<rightharpoonup> 'v) \<Rightarrow> 'k \<Rightarrow> 'v \<Rightarrow> 'v" where
  "dict_get d k dflt = (case d k of None \<Rightarrow> dflt | Some v \<Rightarrow> v)"

subsection \<open>Strings\<close>

text \<open>
  A character is one of the 256 code points below U+0100, so a \<open>string\<close> is a Python
  \<open>str\<close> over that range.  \<open>str.lower\<close> maps A to Z and the upper-case letters
  U+00C0 to U+00DE (without the multiplication sign U+00D7) to the letter 32 places up and
  leaves every other such code point alone; \<open>str.strip\<close> removes the white space of
  \<open>str.isspace\<close> from both ends.
\<close>

definition ascii_lowercase :: string where
  "ascii_lowercase = ''abcdefghijklmnopqrstuvwxyz''"

definition ascii_uppercase :: string where
  "ascii_uppercase = ''ABCDEFGHIJKLMNOPQRSTUVWXYZ''"

definition latin1_uppercase :: string where
  "latin1_uppercase =
     [CHR 0xC0, CHR 0xC1, CHR 0xC2, CHR 0xC3, CHR 0xC4, CHR 0xC5, CHR 0xC6, CHR 0xC7,
      CHR 0xC8, CHR 0xC9, CHR 0xCA, CHR 0xCB, CHR 0xCC, CHR 0xCD, CHR 0xCE, CHR 0xCF,
      CHR 0xD0, CHR 0xD1, CHR 0xD2, CHR 0xD3, CHR 0xD4, CHR 0xD5, CHR 0xD6,
      CHR 0xD8, CHR 0xD9, CHR 0xDA, CHR 0xDB, CHR 0xDC, CHR 0xDD, CHR 0xDE]"

definition latin1_lowercase :: string where
  "latin1_lowercase =
     [CHR 0xE0, CHR 0xE1, CHR 0xE2, CHR 0xE3, CHR 0xE4, CHR 0xE5, CHR 0xE6, CHR 0xE7,
      CHR 0xE8, CHR 0xE9, CHR 0xEA, CHR 0xEB, CHR 0xEC, CHR 0xED, CHR 0xEE, CHR 0xEF,
      CHR 0xF0, CHR 0xF1, CHR 0xF2, CHR 0xF3, CHR 0xF4, CHR 0xF5, CHR 0xF6,
      CHR 0xF8, CHR 0xF9, CHR 0xFA, CHR 0xFB, CHR 0xFC, CHR 0xFD, CHR 0xFE]"

definition whitespace :: string where
  "whitespace =
     [CHR 0x09, CHR 0x0A, CHR 0x0B, CHR 0x0C, CHR 0x0D,
      CHR 0x1C, CHR 0x1D, CHR 0x1E, CHR 0x1F, CHR 0x20, CHR 0x85, CHR 0xA0]"

definition is_space :: "char \<Rightarrow> bool" where
  "is_space ch = (ch \<in> set whitespace)"

definition py_strip :: "string \<Rightarrow> string" where
  "py_strip s = rev (dropWhile is_space (rev (dropWhile is_space s)))"

definition lower_char :: "char \<Rightarrow> char" where
  "lower_char ch =
     (case map_of (zip (ascii_uppercase @ latin1_uppercase)
                       (ascii_lowercase @ latin1_lowercase)) ch of
        None \<Rightarrow> ch
      | Some l \<Rightarrow> l)"

definition py_lower :: "string \<Rightarrow> string" where
  "py_lower s = map lower_char s"

section \<open>Choosing the answer\<close>

text \<open>
  \<open>choose_answer\<close> is \<open>random.choice(words)\<close>: it raises on an empty list and
  otherwise returns the word at an index drawn below the length.  The draw is the
  argument \<open>r\<close>, reduced below the length.
\<close>

definition choose_answer :: "string list \<Rightarrow> nat \<Rightarrow> py_error + string" where
  "choose_answer ws r = (if ws = [] then Inl IndexError else Inr (ws ! (r mod length ws)))"

section \<open>Scoring a guess\<close>

text \<open>
  \<open>wordle_feedback\<close> fills \<open>result = [0] * WORD_LENGTH\<close> in two loops.  The first runs
  over \<open>enumerate(zip(guess, answer))\<close>: a match stores 2 at the index (raising when the
  index is outside \<open>result\<close>), a mismatch counts the answer's letter in \<open>remaining\<close>.
\<close>

fun first_pass ::
  "nat \<Rightarrow> (char \<times> char) list \<Rightarrow> int list \<Rightarrow> (char \<rightharpoonup> int)
     \<Rightarrow> py_error + (int list \<times> (char \<rightharpoonup> int))" where
  "first_pass i [] result remaining = Inr (result, remaining)"
| "first_pass i ((g, a) # ps) result remaining =
     (if g = a then
        (if i < length result then first_pass (Suc i) ps (result[i := 2]) remaining
         else Inl IndexError)
      else first_pass (Suc i) ps result (remaining(a \<mapsto> dict_get remaining a 0 + 1)))"

text \<open>
  The second loop runs over \<open>enumerate(guess)\<close>: it reads \<open>result[i]\<close> (raising outside
  the list), skips a position already marked, and otherwise marks 1 and takes one from
  \<open>remaining[g]\<close> when a copy of the letter is left.
\<close>

fun second_pass ::
  "nat \<Rightarrow> string \<Rightarrow> int list \<Rightarrow> (char \<rightharpoonup> int) \<Rightarrow> py_error + int list" where
  "second_pass i [] result remaining = Inr result"
| "second_pass i (g # gs) result remaining =
     (if \<not> i < length result then Inl IndexError
      else if result ! i \<noteq> 0 then second_pass (Suc i) gs result remaining
      else if dict_get remaining g 0 > 0 then
        (case remaining g of
           None \<Rightarrow> Inl KeyError
         | Some v \<Rightarrow> second_pass (Suc i) gs (result[i := 1]) (remaining(g \<mapsto> v - 1)))
      else second_pass (Suc i) gs result remaining)"

definition wordle_feedback :: "string \<Rightarrow> string \<Rightarrow> py_error + int list" where
  "wordle_feedback guess answer =
     (case first_pass 0 (zip guess answer) (replicate WORD_LENGTH 0) Map.empty of
        Inl e \<Rightarrow> Inl e
      | Inr (result, remaining) \<Rightarrow> second_pass 0 guess result remaining)"

section \<open>Keyboard\<close>

text \<open>
  \<open>update_keyboard\<close> walks \<open>zip(guess, fb)\<close> and stores
  \<open>max(kb.get(ch, -1), s)\<close> under each letter; the updated dictionary is returned.
\<close>

fun update_keyboard :: "(char \<rightharpoonup> int) \<Rightarrow> string \<Rightarrow> int list \<Rightarrow> (char \<rightharpoonup> int)" where
  "update_keyboard kb (ch # guess) (s # fb) =
     update_keyboard (kb(ch \<mapsto> max (dict_get kb ch (- 1)) s)) guess fb"
| "update_keyboard kb _ _ = kb"

definition STATUS_TO_CLASS :: "int \<rightharpoonup> string" where
  "STATUS_TO_CLASS = [0 \<mapsto> ''t0'', 1 \<mapsto> ''t1'', 2 \<mapsto> ''t2'']"

text \<open>
  \<open>render_keyboard\<close> looks every key of the three rows up: a letter without an entry gets
  the class \<open>tE\<close>, a letter with status \<open>s\<close> gets \<open>STATUS_TO_CLASS[s]\<close>, which raises
  when \<open>s\<close> is not a key of that table.  The model returns the class of each key, row by
  row; the markup built around the class is left out.
\<close>

definition key_class :: "(char \<rightharpoonup> int) \<Rightarrow> char \<Rightarrow> py_error + string" where
  "key_class kb ch =
     (case kb ch of
        None \<Rightarrow> Inr ''tE''
      | Some s \<Rightarrow> (case STATUS_TO_CLASS s of None \<Rightarrow> Inl KeyError | Some cls \<Rightarrow> Inr cls))"

fun render_row :: "(char \<rightharpoonup> int) \<Rightarrow> string \<Rightarrow> py_error + string list" where
  "render_row kb [] = Inr []"
| "render_row kb (ch # r) =
     (case key_class kb ch of
        Inl e \<Rightarrow> Inl e
      | Inr cls \<Rightarrow> (case render_row kb r of Inl e \<Rightarrow> Inl e | Inr pieces \<Rightarrow> Inr (cls # pieces)))"

fun render_rows :: "(char \<rightharpoonup> int) \<Rightarrow> string list \<Rightarrow> py_error + string list list" where
  "render_rows kb [] = Inr []"
| "render_rows kb (r # rows) =
     (case render_row kb r of
        Inl e \<Rightarrow> Inl e
      | Inr pieces \<Rightarrow>
          (case render_rows kb rows of
             Inl e \<Rightarrow> Inl e
           | Inr html_rows \<Rightarrow> Inr (pieces # html_rows)))"

definition render_keyboard :: "(char \<rightharpoonup> int) \<Rightarrow> py_error + string list list" where
  "render_keyboard kb = render_rows kb [''qwertyuiop'', ''asdfghjkl'', ''zxcvbnm'']"

section \<open>The session\<close>

text \<open>
  The fields of \<open>st.session_state\<close> that hold the game.  The only terminal flag the code
  stores is \<open>game_over\<close>.
\<close>

record session =
  words :: "string list"
  answer :: string
  guesses :: "string list"
  feedbacks :: "int list list"
  keyboard :: "char \<rightharpoonup> int"
  game_over :: bool

text \<open>
  What one submission does, read off the branch the handler takes: the validation error
  (\<open>InvalidGuess\<close>), the success message of a matching guess (\<open>Won\<close>), the
  out-of-guesses message (\<open>Lost\<close>), an accepted guess with neither (\<open>InProgress\<close>),
  and the game-over branch, in which no guess is read or processed
  (\<open>SessionTerminated\<close>).
\<close>

datatype outcome = InvalidGuess | SessionTerminated | InProgress | Won | Lost

text \<open>The state set up on the first run, for a word list and the answer chosen from it.\<close>

definition fresh_session :: "string list \<Rightarrow> string \<Rightarrow> session" where
  "fresh_session ws a =
     \<lparr>words = ws, answer = a, guesses = [], feedbacks = [], keyboard = Map.empty,
      game_over = False\<rparr>"

definition init_session :: "string list \<Rightarrow> nat \<Rightarrow> py_error + session" where
  "init_session ws r =
     (case choose_answer ws r of Inl e \<Rightarrow> Inl e | Inr a \<Rightarrow> Inr (fresh_session ws a))"

text \<open>
  The five assignments that both restart handlers make (lines 133 to 137 and 183 to 187),
  before they call \<open>st.rerun()\<close>.
\<close>

definition reset_game :: "session \<Rightarrow> nat \<Rightarrow> py_error + session" where
  "reset_game s r =
     (case choose_answer (words s) r of
        Inl e \<Rightarrow> Inl e
      | Inr a \<Rightarrow>
          Inr (s\<lparr>answer := a, guesses := [], feedbacks := [], keyboard := Map.empty,
                 game_over := False\<rparr>))"

text \<open>A guess passes validation when the handler's rejection test is false.\<close>

definition valid_guess :: "string \<Rightarrow> bool" where
  "valid_guess guess =
     (\<not> (length guess \<noteq> WORD_LENGTH \<or> \<not> list_all (\<lambda>ch. ch \<in> set ascii_lowercase) guess))"

text \<open>The body run for a submitted guess: validation, scoring, recording, win and loss.\<close>

definition process_guess :: "session \<Rightarrow> string \<Rightarrow> py_error + (outcome \<times> session)" where
  "process_guess s guess =
     (if length guess \<noteq> WORD_LENGTH \<or> \<not> list_all (\<lambda>ch. ch \<in> set ascii_lowercase) guess
      then Inr (InvalidGuess, s)
      else
        (case wordle_feedback guess (answer s) of
           Inl e \<Rightarrow> Inl e
         | Inr fb \<Rightarrow>
             (let s1 = s\<lparr>guesses := guesses s @ [guess],
                          feedbacks := feedbacks s @ [fb],
                          keyboard := update_keyboard (keyboard s) guess fb\<rparr>
              in if guess = answer s1 then Inr (Won, s1\<lparr>game_over := True\<rparr>)
                 else if length (guesses s1) \<ge> MAX_GUESSES then Inr (Lost, s1\<lparr>game_over := True\<rparr>)
                 else Inr (InProgress, s1))))"

text \<open>
  One submission of the text \<open>raw\<close>.  While the game is on, the text is stripped and
  lower-cased before anything else looks at it; once \<open>game_over\<close> is set the input is not
  offered and the state stays as it is.  Whether a run counts as a submission, the flag
  \<open>_enter_submit\<close> and the reruns are modelled with the script below.  The length limit
  of the input widget is not part of the model: \<open>raw\<close> is any string.
\<close>

definition submitGuess :: "session \<Rightarrow> string \<Rightarrow> py_error + (outcome \<times> session)" where
  "submitGuess s raw =
     (if \<not> game_over s then process_guess s (py_lower (py_strip raw))
      else Inr (SessionTerminated, s))"

text \<open>Submissions one after another, stopping at the first exception.\<close>

fun submit_all :: "session \<Rightarrow> string list \<Rightarrow> py_error + (outcome list \<times> session)" where
  "submit_all s [] = Inr ([], s)"
| "submit_all s (raw # raws) =
     (case submitGuess s raw of
        Inl e \<Rightarrow> Inl e
      | Inr (out, s') \<Rightarrow>
          (case submit_all s' raws of
             Inl e \<Rightarrow> Inl e
           | Inr (outs, s'') \<Rightarrow> Inr (out # outs, s'')))"

section \<open>The script, run by run\<close>

text \<open>
  \<open>render_board\<close> draws \<open>MAX_GUESSES\<close> rows.  A row with a guess has one tile for each
  mark of its feedback: the class \<open>STATUS_TO_CLASS[s]\<close>, then the letter \<open>g[j]\<close>; both
  lookups can raise, and so can \<open>feedbacks[i]\<close>.  A row without a guess has
  \<open>WORD_LENGTH\<close> empty tiles.  A tile is modelled by its class and its label; the
  upper-casing of the letter and the markup around it are left out.
\<close>

fun render_tiles :: "string \<Rightarrow> nat \<Rightarrow> int list \<Rightarrow> py_error + (string \<times> string) list" where
  "render_tiles g j [] = Inr []"
| "render_tiles g j (s # fb) =
     (case STATUS_TO_CLASS s of
        None \<Rightarrow> Inl KeyError
      | Some cls \<Rightarrow>
          (if \<not> j < length g then Inl IndexError
           else (case render_tiles g (Suc j) fb of
                   Inl e \<Rightarrow> Inl e
                 | Inr tiles \<Rightarrow> Inr ((cls, [g ! j]) # tiles))))"

fun render_board_rows ::
  "string list \<Rightarrow> int list list \<Rightarrow> nat list \<Rightarrow> py_error + (string \<times> string) list list" where
  "render_board_rows gs fbs [] = Inr []"
| "render_board_rows gs fbs (i # is) =
     (case (if i < length gs then
              (if \<not> i < length fbs then Inl IndexError
               else render_tiles (gs ! i) 0 (fbs ! i))
            else Inr (replicate WORD_LENGTH (''tE'', ''&nbsp;''))) of
        Inl e \<Rightarrow> Inl e
      | Inr tiles \<Rightarrow>
          (case render_board_rows gs fbs is of
             Inl e \<Rightarrow> Inl e
           | Inr rows \<Rightarrow> Inr (tiles # rows)))"

definition render_board ::
  "string list \<Rightarrow> int list list \<Rightarrow> py_error + (string \<times> string) list list" where
  "render_board gs fbs = render_board_rows gs fbs [0..<MAX_GUESSES]"

text \<open>
  What one run of the script reads and writes besides the session: the flag
  \<open>_enter_submit\<close> of \<open>st.session_state\<close>, which is absent (read as \<open>False\<close>) at first.
\<close>

record app =
  sess :: session
  enter_submit :: bool

definition fresh_app :: "string list \<Rightarrow> string \<Rightarrow> app" where
  "fresh_app ws a = \<lparr>sess = fresh_session ws a, enter_submit = False\<rparr>"

definition init_app :: "string list \<Rightarrow> nat \<Rightarrow> py_error + app" where
  "init_app ws r =
     (case init_session ws r of
        Inl e \<Rightarrow> Inl e
      | Inr s \<Rightarrow> Inr \<lparr>sess = s, enter_submit = False\<rparr>)"

text \<open>The button, if any, whose click started the run.\<close>

datatype click = NoClick | ClickSubmit | ClickRestart | ClickPlayAgain

text \<open>
  The main block (lines 147 to 188) for the text \<open>raw\<close> in the input box.  While the game
  is on, the guess counts as submitted when the submit button was clicked or when it has
  \<open>WORD_LENGTH\<close> characters and the flag is set; the flag is then set again exactly when
  the guess has that length and was not submitted.  A submitted guess runs the handler,
  which calls \<open>st.rerun()\<close> unless the validation failed.  Once the game is over only the
  play-again button is offered: it resets the game and calls \<open>st.rerun()\<close>.  A button
  that the branch does not offer cannot be clicked; such a click changes nothing.  The
  second component tells whether \<open>st.rerun()\<close> was called.
\<close>

definition main_block :: "app \<Rightarrow> click \<Rightarrow> nat \<Rightarrow> string \<Rightarrow> py_error + (app \<times> bool)" where
  "main_block a c r raw =
     (if \<not> game_over (sess a) then
        (let guess = py_lower (py_strip raw);
             submitted = (c = ClickSubmit \<or> (length guess = WORD_LENGTH \<and> enter_submit a));
             a1 = a\<lparr>enter_submit := (length guess = WORD_LENGTH \<and> \<not> submitted)\<rparr>
         in if submitted then
              (case process_guess (sess a1) guess of
                 Inl e \<Rightarrow> Inl e
               | Inr (out, s') \<Rightarrow> Inr (a1\<lparr>sess := s'\<rparr>, out \<noteq> InvalidGuess))
            else Inr (a1, False))
      else
        (if c = ClickPlayAgain then
           (case reset_game (sess a) r of
              Inl e \<Rightarrow> Inl e
            | Inr s' \<Rightarrow> Inr (a\<lparr>sess := s'\<rparr>, True))
         else Inr (a, False)))"

text \<open>
  One run of the script after the first: the sidebar button resets the game and calls
  \<open>st.rerun()\<close> at once; otherwise the board and the keyboard are drawn and the main
  block runs.
\<close>

definition script_run :: "app \<Rightarrow> click \<Rightarrow> nat \<Rightarrow> string \<Rightarrow> py_error + (app \<times> bool)" where
  "script_run a c r raw =
     (if c = ClickRestart then
        (case reset_game (sess a) r of
           Inl e \<Rightarrow> Inl e
         | Inr s' \<Rightarrow> Inr (a\<lparr>sess := s'\<rparr>, True))
      else
        (case render_board (guesses (sess a)) (feedbacks (sess a)) of
           Inl e \<Rightarrow> Inl e
         | Inr board \<Rightarrow>
             (case render_keyboard (keyboard (sess a)) of
                Inl e \<Rightarrow> Inl e
              | Inr keys \<Rightarrow> main_block a c r raw)))"

text \<open>
  \<open>st.rerun()\<close> stops the run and starts the script again: no button is clicked in the
  new run and the input box keeps its text.  The runs go on until one ends without
  \<open>st.rerun()\<close>; a run without a click can only call it after a submission through the
  flag, which clears the flag, so at most two more runs follow a click.
\<close>

function run_to_rest :: "app \<Rightarrow> click \<Rightarrow> nat \<Rightarrow> string \<Rightarrow> py_error + app" where
  "run_to_rest a c r raw =
     (case script_run a c r raw of
        Inl e \<Rightarrow> Inl e
      | Inr (a', again) \<Rightarrow> if again then run_to_rest a' NoClick r raw else Inr a')"
  by pat_completeness auto
termination
proof (relation "measure (\<lambda>(a, c, r, raw).
    if c \<noteq> NoClick then 2 else if enter_submit a \<and> \<not> game_over (sess a) then 1 else 0)")
  show "wf (measure (\<lambda>(a, c, r, raw).
    if c \<noteq> NoClick then 2 else if enter_submit a \<and> \<not> game_over (sess a) then 1 else (0::nat)))"
    by simp
next
  fix a :: app and c :: click and r :: nat and raw :: string
    and x2 :: "app \<times> bool" and a' :: app and again :: bool
  assume run: "script_run a c r raw = Inr x2" and x2: "(a', again) = x2" and again: again
  have "c = NoClick \<Longrightarrow> enter_submit a \<and> \<not> game_over (sess a) \<and> \<not> enter_submit a'"
    using run x2 again
    by (auto simp add: script_run_def main_block_def Let_def
        split: sum.splits if_splits prod.splits)
  then show "((a', NoClick, r, raw), (a, c, r, raw)) \<in> measure (\<lambda>(a, c, r, raw).
    if c \<noteq> NoClick then 2 else if enter_submit a \<and> \<not> game_over (sess a) then 1 else 0)"
    by auto
qed

declare run_to_rest.simps [simp del]

text \<open>
  The operations on the running program: a click on a button, or text entered in the
  input box, each followed by the runs it starts.  \<open>restart\<close> is the sidebar button and
  \<open>play_again\<close> the button of the game-over branch; \<open>raw\<close> is the text in the input box
  at the time.
\<close>

definition restart :: "app \<Rightarrow> nat \<Rightarrow> string \<Rightarrow> py_error + app" where
  "restart a r raw = run_to_rest a ClickRestart r raw"

definition play_again :: "app \<Rightarrow> nat \<Rightarrow> string \<Rightarrow> py_error + app" where
  "play_again a r raw = run_to_rest a ClickPlayAgain r raw"

datatype command =
  SubmitGuess string | EnterText string | Restart nat string | PlayAgain nat string

fun run_command :: "app \<Rightarrow> command \<Rightarrow> py_error + app" where
  "run_command a (SubmitGuess raw) = run_to_rest a ClickSubmit 0 raw"
| "run_command a (EnterText raw) = run_to_rest a NoClick 0 raw"
| "run_command a (Restart r raw) = restart a r raw"
| "run_command a (PlayAgain r raw) = play_again a r raw"

fun run_commands :: "app \<Rightarrow> command list \<Rightarrow> py_error + app" where
  "run_commands a [] = Inr a"
| "run_commands a (c # cs) =
     (case run_command a c of Inl e \<Rightarrow> Inl e | Inr a' \<Rightarrow> run_commands a' cs)"

section \<open>Vocabulary of the properties\<close>

text \<open>
  How many positions of a guess hold the letter \<open>c\<close> with a non-zero mark (Present or
  Correct), and how many hold it with the mark 0 (Absent).
\<close>

definition marked :: "char \<Rightarrow> string \<Rightarrow> int list \<Rightarrow> nat" where
  "marked c guess fb = length (filter (\<lambda>(g, s). g = c \<and> s \<noteq> 0) (zip guess fb))"

definition absent :: "char \<Rightarrow> string \<Rightarrow> int list \<Rightarrow> nat" where
  "absent c guess fb = length (filter (\<lambda>(g, s). g = c \<and> s = 0) (zip guess fb))"

text \<open>
  The two loops of the scoring as functions on the slice of \<open>result\<close> they traverse;
  the loops are shown to compute them.
\<close>

definition fp_marks :: "(char \<times> char) list \<Rightarrow> int list \<Rightarrow> int list" where
  "fp_marks ps rs = map (\<lambda>((g, a), r). if g = a then 2 else r) (zip ps rs)"

fun fp_counts :: "(char \<times> char) list \<Rightarrow> (char \<rightharpoonup> int) \<Rightarrow> (char \<rightharpoonup> int)" where
  "fp_counts [] remaining = remaining"
| "fp_counts ((g, a) # ps) remaining =
     (if g = a then fp_counts ps remaining
      else fp_counts ps (remaining(a \<mapsto> dict_get remaining a 0 + 1)))"

fun sp_marks :: "string \<Rightarrow> int list \<Rightarrow> (char \<rightharpoonup> int) \<Rightarrow> int list" where
  "sp_marks (g # gs) (r # rs) remaining =
     (if r \<noteq> 0 then r # sp_marks gs rs remaining
      else if dict_get remaining g 0 > 0
        then 1 # sp_marks gs rs (remaining(g \<mapsto> dict_get remaining g 0 - 1))
      else 0 # sp_marks gs rs remaining)"
| "sp_marks _ _ remaining = []"

text \<open>Several keyboard updates in a row.\<close>

fun update_keyboard_all ::
  "(char \<rightharpoonup> int) \<Rightarrow> (string \<times> int list) list \<Rightarrow> (char \<rightharpoonup> int)" where
  "update_keyboard_all kb [] = kb"
| "update_keyboard_all kb ((guess, fb) # calls) =
     update_keyboard_all (update_keyboard kb guess fb) calls"

text \<open>The invariant of the session: the word list is not empty, the two histories have
  the same length, at most \<open>MAX_GUESSES\<close>, and fewer while the game is on.\<close>

definition session_inv :: "session \<Rightarrow> bool" where
  "session_inv s =
     (words s \<noteq> [] \<and> length (guesses s) \<le> MAX_GUESSES \<and>
      length (feedbacks s) = length (guesses s) \<and>
      (\<not> game_over s \<longrightarrow> length (guesses s) < MAX_GUESSES))"


text \<open>The outcome and the session of a submission that raised nothing.\<close>

definition result_outcome :: "py_error + (outcome \<times> session) \<Rightarrow> outcome option" where
  "result_outcome r = (case r of Inl e \<Rightarrow> None | Inr (out, s) \<Rightarrow> Some out)"

definition result_session :: "py_error + (outcome \<times> session) \<Rightarrow> session option" where
  "result_session r = (case r of Inl e \<Rightarrow> None | Inr (out, s) \<Rightarrow> Some s)"



text \<open>
  What the drawing needs: every stored feedback is no longer than its guess and holds
  marks from 0 to 2 only, and so does the keyboard.
\<close>

definition feedback_ok :: "string \<Rightarrow> int list \<Rightarrow> bool" where
  "feedback_ok g fb = (length fb \<le> length g \<and> list_all (\<lambda>s. 0 \<le> s \<and> s \<le> 2) fb)"

definition board_inv :: "session \<Rightarrow> bool" where
  "board_inv s =
     (list_all2 feedback_ok (guesses s) (feedbacks s) \<and>
      (\<forall>ch v. keyboard s ch = Some v \<longrightarrow> 0 \<le> v \<and> v \<le> 2))"

text \<open>The invariant of the running program; a finished game has the flag cleared.\<close>

definition app_inv :: "app \<Rightarrow> bool" where
  "app_inv a =
     (session_inv (sess a) \<and> board_inv (sess a) \<and> (game_over (sess a) \<longrightarrow> \<not> enter_submit a))"

section \<open>The scoring loops compute the slice functions\<close>

lemma dict_get_upd:
  "dict_get (m(k \<mapsto> v)) c d = (if c = k then v else dict_get m c d)"
  by (simp add: dict_get_def)

lemma first_pass_slice:
  "length ps \<le> length rs \<Longrightarrow>
   first_pass (length pre) ps (pre @ rs) remaining =
     Inr (pre @ fp_marks ps rs @ drop (length ps) rs, fp_counts ps remaining)"
proof (induction ps arbitrary: pre rs remaining)
  case Nil
  then show ?case by (simp add: fp_marks_def)
next
  case (Cons p ps)
  obtain g a where p: "p = (g, a)" by (cases p)
  from Cons.prems obtain r rs' where rs: "rs = r # rs'" by (cases rs) auto
  have len: "length ps \<le> length rs'" using Cons.prems rs by simp
  have step: "\<And>x rem'. first_pass (Suc (length pre)) ps (pre @ x # rs') rem' =
      Inr (pre @ x # fp_marks ps rs' @ drop (length ps) rs', fp_counts ps rem')"
    using Cons.IH [OF len, of "pre @ [x]" for x] by simp
  show ?case
    by (simp add: p rs step fp_marks_def)
qed

lemma second_pass_slice:
  "length gs \<le> length rs \<Longrightarrow>
   second_pass (length pre) gs (pre @ rs) remaining =
     Inr (pre @ sp_marks gs rs remaining @ drop (length gs) rs)"
proof (induction gs arbitrary: pre rs remaining)
  case Nil
  then show ?case by (cases rs) simp_all
next
  case (Cons g gs)
  from Cons.prems obtain r rs' where rs: "rs = r # rs'" by (cases rs) auto
  have len: "length gs \<le> length rs'" using Cons.prems rs by simp
  have step: "\<And>x rem'. second_pass (Suc (length pre)) gs (pre @ x # rs') rem' =
      Inr (pre @ x # sp_marks gs rs' rem' @ drop (length gs) rs')"
    using Cons.IH [OF len, of "pre @ [x]" for x] by simp
  show ?case
    by (auto simp add: rs step dict_get_def split: option.splits)
qed

lemma length_fp_marks: "length (fp_marks ps rs) = min (length ps) (length rs)"
  by (simp add: fp_marks_def)

lemma length_sp_marks: "length (sp_marks gs rs remaining) = min (length gs) (length rs)"
  by (induction gs rs remaining rule: sp_marks.induct) (simp_all del: fun_upd_apply)

lemma fp_marks_zeros:
  "length ps = n \<Longrightarrow>
   fp_marks ps (replicate n 0) = map (\<lambda>(g, a). if g = a then 2 else 0) ps"
  by (induction ps arbitrary: n) (auto simp add: fp_marks_def)

lemma wordle_feedback_total:
  assumes "length guess \<le> WORD_LENGTH"
  shows "\<exists>fb. wordle_feedback guess ans = Inr fb \<and> length fb = WORD_LENGTH"
proof -
  let ?ps = "zip guess ans"
  let ?zs = "replicate WORD_LENGTH (0::int)"
  let ?R = "fp_marks ?ps ?zs @ drop (length ?ps) ?zs"
  have lps: "length ?ps \<le> length ?zs" using assms by simp
  have fp: "first_pass 0 ?ps ?zs Map.empty = Inr (?R, fp_counts ?ps Map.empty)"
    using first_pass_slice [OF lps, of "[]" Map.empty] by simp
  have lR: "length ?R = WORD_LENGTH"
    using lps by (simp add: length_fp_marks)
  have lg: "length guess \<le> length ?R" using assms lR by simp
  have sp: "second_pass 0 guess ?R (fp_counts ?ps Map.empty) =
      Inr (sp_marks guess ?R (fp_counts ?ps Map.empty) @ drop (length guess) ?R)"
    using second_pass_slice [OF lg, of "[]" "fp_counts ?ps Map.empty"] by simp
  have "wordle_feedback guess ans =
      Inr (sp_marks guess ?R (fp_counts ?ps Map.empty) @ drop (length guess) ?R)"
    unfolding wordle_feedback_def fp using sp by simp
  moreover have "length (sp_marks guess ?R (fp_counts ?ps Map.empty) @ drop (length guess) ?R)
      = WORD_LENGTH"
    using lg lR by (simp only: length_append length_sp_marks length_drop)
  ultimately show ?thesis by blast
qed

lemma wordle_feedback_eq:
  assumes "length guess = WORD_LENGTH" and "length ans = WORD_LENGTH"
  shows "wordle_feedback guess ans =
     Inr (sp_marks guess (map (\<lambda>(g, a). if g = a then 2 else 0) (zip guess ans))
            (fp_counts (zip guess ans) Map.empty))"
proof -
  let ?ps = "zip guess ans"
  let ?zs = "replicate WORD_LENGTH (0::int)"
  let ?G = "map (\<lambda>(g, a). if g = a then 2 else (0::int)) ?ps"
  have lps: "length ?ps = WORD_LENGTH" using assms by simp
  have lps': "length ?ps \<le> length ?zs" using lps by simp
  have "first_pass 0 ?ps ?zs Map.empty =
      Inr (fp_marks ?ps ?zs @ drop (length ?ps) ?zs, fp_counts ?ps Map.empty)"
    using first_pass_slice [OF lps', of "[]" Map.empty] by simp
  then have fp: "first_pass 0 ?ps ?zs Map.empty = Inr (?G, fp_counts ?ps Map.empty)"
    using lps by (simp add: fp_marks_zeros)
  have lg: "length guess \<le> length ?G" using assms by simp
  have "second_pass 0 guess ?G (fp_counts ?ps Map.empty) =
      Inr (sp_marks guess ?G (fp_counts ?ps Map.empty) @ drop (length guess) ?G)"
    using second_pass_slice [OF lg, of "[]" "fp_counts ?ps Map.empty"] by simp
  then have sp: "second_pass 0 guess ?G (fp_counts ?ps Map.empty) =
      Inr (sp_marks guess ?G (fp_counts ?ps Map.empty))"
    using assms by simp
  show ?thesis unfolding wordle_feedback_def fp using sp by simp
qed

section \<open>Counting the marks of a letter\<close>

lemma fp_counts_get:
  "dict_get (fp_counts ps remaining) c 0 =
     dict_get remaining c 0 + int (length (filter (\<lambda>(g, a). g \<noteq> a \<and> a = c) ps))"
proof (induction ps arbitrary: remaining)
  case Nil
  show ?case by simp
next
  case (Cons p ps)
  obtain g a where p: "p = (g, a)" by (cases p)
  show ?case
  proof (cases "g = a")
    case True
    then show ?thesis by (simp add: p Cons.IH)
  next
    case False
    have "dict_get (fp_counts ps (remaining(a \<mapsto> dict_get remaining a 0 + 1))) c 0 =
        dict_get (remaining(a \<mapsto> dict_get remaining a 0 + 1)) c 0 +
        int (length (filter (\<lambda>(g, a). g \<noteq> a \<and> a = c) ps))"
      by (rule Cons.IH)
    with False show ?thesis by (simp add: p dict_get_upd)
  qed
qed

lemma marked_sp_marks:
  "length gs = length rs \<Longrightarrow>
   marked c gs (sp_marks gs rs remaining) =
     length (filter (\<lambda>(g, r). g = c \<and> r \<noteq> 0) (zip gs rs)) +
     min (nat (dict_get remaining c 0)) (length (filter (\<lambda>(g, r). g = c \<and> r = 0) (zip gs rs)))"
proof (induction gs rs arbitrary: remaining rule: list_induct2)
  case Nil
  then show ?case by (simp add: marked_def)
next
  case (Cons g gs r rs)
  have IH: "\<And>rem'. length (filter (\<lambda>(g, s). g = c \<and> s \<noteq> 0) (zip gs (sp_marks gs rs rem'))) =
     length (filter (\<lambda>(g, r). g = c \<and> r \<noteq> 0) (zip gs rs)) +
     min (nat (dict_get rem' c 0)) (length (filter (\<lambda>(g, r). g = c \<and> r = 0) (zip gs rs)))"
    using Cons.IH by (simp add: marked_def)
  show ?case
    by (auto simp add: marked_def IH dict_get_def split: option.splits)
qed

lemma count_greens:
  "length guess = length ans \<Longrightarrow>
   length (filter (\<lambda>(g, r). g = c \<and> r \<noteq> (0::int))
     (zip guess (map (\<lambda>(g, a). if g = a then 2 else 0) (zip guess ans)))) =
   length (filter (\<lambda>(g, a). g = a \<and> g = c) (zip guess ans))"
  by (induction guess ans rule: list_induct2) auto

lemma count_nongreens:
  "length guess = length ans \<Longrightarrow>
   length (filter (\<lambda>(g, r). g = c \<and> r = (0::int))
     (zip guess (map (\<lambda>(g, a). if g = a then 2 else 0) (zip guess ans)))) =
   length (filter (\<lambda>(g, a). g \<noteq> a \<and> g = c) (zip guess ans))"
  by (induction guess ans rule: list_induct2) auto

lemma count_answer_split:
  "length guess = length ans \<Longrightarrow>
   count_list ans c =
     length (filter (\<lambda>(g, a). g = a \<and> g = c) (zip guess ans)) +
     length (filter (\<lambda>(g, a). g \<noteq> a \<and> a = c) (zip guess ans))"
  by (induction guess ans rule: list_induct2) auto

lemma count_guess_split:
  "length guess = length ans \<Longrightarrow>
   count_list guess c =
     length (filter (\<lambda>(g, a). g = a \<and> g = c) (zip guess ans)) +
     length (filter (\<lambda>(g, a). g \<noteq> a \<and> g = c) (zip guess ans))"
  by (induction guess ans rule: list_induct2) auto

lemma marked_absent_sum:
  "length guess = length fb \<Longrightarrow> marked c guess fb + absent c guess fb = count_list guess c"
  unfolding marked_def absent_def
  by (induction guess fb rule: list_induct2) auto

lemma sp_marks_nth_keep:
  "length gs = length rs \<Longrightarrow> i < length rs \<Longrightarrow> rs ! i \<noteq> 0 \<Longrightarrow>
   sp_marks gs rs remaining ! i = rs ! i"
proof (induction gs rs arbitrary: i remaining rule: list_induct2)
  case Nil
  then show ?case by simp
next
  case (Cons g gs r rs)
  then show ?case by (cases i) auto
qed

lemma marked_feedback:
  assumes "length guess = WORD_LENGTH" and "length ans = WORD_LENGTH"
  shows "marked c guess
       (sp_marks guess (map (\<lambda>(g, a). if g = a then 2 else 0) (zip guess ans))
            (fp_counts (zip guess ans) Map.empty))
     = min (count_list ans c) (count_list guess c)"
proof -
  let ?ps = "zip guess ans"
  let ?G = "map (\<lambda>(g, a). if g = a then 2 else (0::int)) ?ps"
  have eq: "length guess = length ans" using assms by simp
  have lG: "length guess = length ?G" using eq by simp
  have rem: "dict_get (fp_counts ?ps Map.empty) c 0 =
      int (length (filter (\<lambda>(g, a). g \<noteq> a \<and> a = c) ?ps))"
    by (simp add: fp_counts_get) (simp add: dict_get_def)
  show ?thesis
    unfolding marked_sp_marks [OF lG] rem count_greens [OF eq] count_nongreens [OF eq]
    using count_answer_split [OF eq, of c] count_guess_split [OF eq, of c]
    by simp
qed

text \<open>
  C1: for a guess and an answer of \<open>WORD_LENGTH\<close> characters the scoring returns a
  feedback of that length in which, for every letter, the positions marked Present or
  Correct are no more than the letter's occurrences in the answer.  A letter that occurs
  twice in the guess and once in the answer gets exactly one such mark and one Absent,
  and a position where guess and answer agree is marked Correct.  The characters need not
  be lower-case letters.
\<close>

theorem feedback_marks_bounded:
  assumes "length guess = WORD_LENGTH" and "length ans = WORD_LENGTH"
  shows "\<exists>fb. wordle_feedback guess ans = Inr fb \<and> length fb = WORD_LENGTH \<and>
     (\<forall>c. marked c guess fb \<le> count_list ans c) \<and>
     (\<forall>c. count_list guess c = 2 \<and> count_list ans c = 1 \<longrightarrow>
          marked c guess fb = 1 \<and> absent c guess fb = 1) \<and>
     (\<forall>i < WORD_LENGTH. guess ! i = ans ! i \<longrightarrow> fb ! i = 2)"
proof -
  let ?G = "map (\<lambda>(g, a). if g = a then 2 else (0::int)) (zip guess ans)"
  let ?fb = "sp_marks guess ?G (fp_counts (zip guess ans) Map.empty)"
  have fb: "wordle_feedback guess ans = Inr ?fb"
    by (rule wordle_feedback_eq [OF assms])
  have lG: "length guess = length ?G" using assms by simp
  have len: "length ?fb = WORD_LENGTH"
    using assms by (simp add: length_sp_marks)
  have m: "\<And>c. marked c guess ?fb = min (count_list ans c) (count_list guess c)"
    by (rule marked_feedback [OF assms])
  have bound: "\<forall>c. marked c guess ?fb \<le> count_list ans c"
    by (simp add: m)
  have dup: "\<forall>c. count_list guess c = 2 \<and> count_list ans c = 1 \<longrightarrow>
          marked c guess ?fb = 1 \<and> absent c guess ?fb = 1"
  proof (intro allI impI)
    fix c assume h: "count_list guess c = 2 \<and> count_list ans c = 1"
    have one: "marked c guess ?fb = 1" using h by (simp add: m)
    have "marked c guess ?fb + absent c guess ?fb = count_list guess c"
      by (rule marked_absent_sum) (simp add: len assms)
    with one h show "marked c guess ?fb = 1 \<and> absent c guess ?fb = 1" by simp
  qed
  have pos: "\<forall>i < WORD_LENGTH. guess ! i = ans ! i \<longrightarrow> ?fb ! i = 2"
  proof (intro allI impI)
    fix i assume i: "i < WORD_LENGTH" and e: "guess ! i = ans ! i"
    have gi: "?G ! i = 2" using i e assms by simp
    have "?fb ! i = ?G ! i"
      by (rule sp_marks_nth_keep [OF lG]) (use i assms gi in simp_all)
    with gi show "?fb ! i = 2" by simp
  qed
  from fb len bound dup pos show ?thesis by blast
qed

theorem feedback_marks_bounded_witness:
  "length ''speed'' = WORD_LENGTH \<and> length ''abbey'' = WORD_LENGTH \<and>
   count_list ''speed'' CHR ''e'' = 2 \<and> count_list ''abbey'' CHR ''e'' = 1 \<and>
   ''speed'' ! 3 = ''abbey'' ! 3 \<and>
   (\<exists>fb. wordle_feedback ''speed'' ''abbey'' = Inr fb \<and>
      marked CHR ''e'' ''speed'' fb \<le> count_list ''abbey'' CHR ''e'' \<and>
      marked CHR ''e'' ''speed'' fb = 1 \<and> absent CHR ''e'' ''speed'' fb = 1 \<and> fb ! 3 = 2)"
proof -
  have l1: "length ''speed'' = WORD_LENGTH" and l2: "length ''abbey'' = WORD_LENGTH"
    by (simp_all add: WORD_LENGTH_def)
  have c1: "count_list ''speed'' CHR ''e'' = 2" and c2: "count_list ''abbey'' CHR ''e'' = 1"
    by simp_all
  have p: "''speed'' ! 3 = ''abbey'' ! 3" by (simp add: numeral_3_eq_3)
  have i: "3 < WORD_LENGTH" by (simp add: WORD_LENGTH_def)
  from feedback_marks_bounded [OF l1 l2] obtain fb where
    fb: "wordle_feedback ''speed'' ''abbey'' = Inr fb" and
    b: "\<forall>c. marked c ''speed'' fb \<le> count_list ''abbey'' c" and
    d: "\<forall>c. count_list ''speed'' c = 2 \<and> count_list ''abbey'' c = 1 \<longrightarrow>
          marked c ''speed'' fb = 1 \<and> absent c ''speed'' fb = 1" and
    q: "\<forall>i < WORD_LENGTH. ''speed'' ! i = ''abbey'' ! i \<longrightarrow> fb ! i = 2"
    by blast
  from d c1 c2 have "marked CHR ''e'' ''speed'' fb = 1 \<and> absent CHR ''e'' ''speed'' fb = 1"
    by blast
  moreover from q i p have "fb ! 3 = 2" by blast
  moreover from b have "marked CHR ''e'' ''speed'' fb \<le> count_list ''abbey'' CHR ''e''"
    by blast
  ultimately show ?thesis using l1 l2 c1 c2 p fb by blast
qed

text \<open>
  C2 (as the code behaves): scoring the guess "trace" against the answer "crane" gives
  [0, 2, 2, 1, 2]: the letter a stands at the third position of both words and is
  marked Correct there.
\<close>

theorem feedback_trace_crane:
  "wordle_feedback ''trace'' ''crane'' = Inr [0, 2, 2, 1, 2]"
  by code_simp

text \<open>
  C2 (as stated): the feedback for "trace" against "crane" is not
  [Absent, Correct, Present, Present, Correct].
\<close>

theorem feedback_trace_crane_not_spec:
  "wordle_feedback ''trace'' ''crane'' \<noteq> Inr [0, 2, 1, 1, 2]"
  by code_simp

section \<open>Keyboard updates\<close>

lemma update_keyboard_step:
  "update_keyboard kb (ch # guess) (s # fb) c =
     update_keyboard (kb(ch \<mapsto> max (dict_get kb ch (- 1)) s)) guess fb c"
  by simp

lemma update_keyboard_grows:
  "kb c = Some v \<Longrightarrow> \<exists>v'. update_keyboard kb guess fb c = Some v' \<and> v \<le> v'"
proof (induction kb guess fb arbitrary: v rule: update_keyboard.induct)
  case (1 kb ch guess s fb)
  let ?kb = "kb(ch \<mapsto> max (dict_get kb ch (- 1)) s)"
  have "\<exists>w. ?kb c = Some w \<and> v \<le> w"
    using "1.prems" by (auto simp add: dict_get_def)
  then obtain w where w: "?kb c = Some w" and vw: "v \<le> w" by blast
  from "1.IH" [OF w] obtain v' where "update_keyboard ?kb guess fb c = Some v'" and "w \<le> v'"
    by blast
  with vw show ?case by (simp only: update_keyboard_step) auto
qed simp_all

lemma update_keyboard_default:
  "dict_get kb c (- 1) \<le> dict_get (update_keyboard kb guess fb) c (- 1)"
proof (induction kb guess fb rule: update_keyboard.induct)
  case (1 kb ch guess s fb)
  let ?kb = "kb(ch \<mapsto> max (dict_get kb ch (- 1)) s)"
  have a: "dict_get kb c (- 1) \<le> dict_get ?kb c (- 1)"
    by (simp add: dict_get_upd)
  have b: "dict_get ?kb c (- 1) \<le> dict_get (update_keyboard ?kb guess fb) c (- 1)"
    by (rule "1.IH")
  have e: "update_keyboard kb (ch # guess) (s # fb) = update_keyboard ?kb guess fb"
    by simp
  from a b show ?case unfolding e by (rule order_trans)
qed simp_all

lemma update_keyboard_upper:
  "(\<And>v. kb c = Some v \<Longrightarrow> v \<le> hi) \<Longrightarrow> (\<And>s. s \<in> set fb \<Longrightarrow> s \<le> hi) \<Longrightarrow>
   - 1 \<le> hi \<Longrightarrow> update_keyboard kb guess fb c = Some v \<Longrightarrow> v \<le> hi"
proof (induction kb guess fb arbitrary: v rule: update_keyboard.induct)
  case (1 kb ch guess s fb)
  let ?kb = "kb(ch \<mapsto> max (dict_get kb ch (- 1)) s)"
  have s: "s \<le> hi" using "1.prems"(2) by simp
  have d: "dict_get kb c (- 1) \<le> hi"
    using "1.prems"(1) "1.prems"(3) by (cases "kb c") (simp_all add: dict_get_def)
  have k: "\<And>w. ?kb c = Some w \<Longrightarrow> w \<le> hi"
  proof -
    fix w assume w: "?kb c = Some w"
    show "w \<le> hi"
    proof (cases "c = ch")
      case True
      then have "w = max (dict_get kb c (- 1)) s" using w by simp
      then show ?thesis using s d by simp
    next
      case False
      then show ?thesis using w "1.prems"(1) by simp
    qed
  qed
  have f: "\<And>t. t \<in> set fb \<Longrightarrow> t \<le> hi" using "1.prems"(2) by simp
  have u: "update_keyboard ?kb guess fb c = Some v" using "1.prems"(4) by simp
  show ?case by (rule "1.IH" [OF k f "1.prems"(3) u])
qed simp_all

lemma update_keyboard_lower:
  "(\<And>v. kb c = Some v \<Longrightarrow> lo \<le> v) \<Longrightarrow> (\<And>s. s \<in> set fb \<Longrightarrow> lo \<le> s) \<Longrightarrow>
   update_keyboard kb guess fb c = Some v \<Longrightarrow> lo \<le> v"
proof (induction kb guess fb arbitrary: v rule: update_keyboard.induct)
  case (1 kb ch guess s fb)
  let ?kb = "kb(ch \<mapsto> max (dict_get kb ch (- 1)) s)"
  have s: "lo \<le> s" using "1.prems"(2) by simp
  have k: "\<And>w. ?kb c = Some w \<Longrightarrow> lo \<le> w"
  proof -
    fix w assume w: "?kb c = Some w"
    show "lo \<le> w"
    proof (cases "c = ch")
      case True
      then have "w = max (dict_get kb c (- 1)) s" using w by simp
      then show ?thesis using s by simp
    next
      case False
      then show ?thesis using w "1.prems"(1) by simp
    qed
  qed
  have f: "\<And>t. t \<in> set fb \<Longrightarrow> lo \<le> t" using "1.prems"(2) by simp
  have u: "update_keyboard ?kb guess fb c = Some v" using "1.prems"(3) by simp
  show ?case by (rule "1.IH" [OF k f u])
qed simp_all

text \<open>
  C7: one keyboard update never lowers the status of a letter.  Read with the default
  \<open>-1\<close> for a letter without an entry, the status after the update is at least the
  status before; an entry stays an entry with a value at least as large; and a letter
  recorded as Correct stays Correct under any feedback with values up to 2.
\<close>

theorem update_keyboard_monotonic:
  "dict_get kb c (- 1) \<le> dict_get (update_keyboard kb guess fb) c (- 1) \<and>
   (\<forall>v. kb c = Some v \<longrightarrow> (\<exists>v'. update_keyboard kb guess fb c = Some v' \<and> v \<le> v')) \<and>
   (kb c = Some 2 \<and> (\<forall>s \<in> set fb. s \<le> 2) \<longrightarrow> update_keyboard kb guess fb c = Some 2)"
proof (intro conjI allI impI)
  show "dict_get kb c (- 1) \<le> dict_get (update_keyboard kb guess fb) c (- 1)"
    by (rule update_keyboard_default)
next
  fix v assume "kb c = Some v"
  then show "\<exists>v'. update_keyboard kb guess fb c = Some v' \<and> v \<le> v'"
    by (rule update_keyboard_grows)
next
  assume h: "kb c = Some 2 \<and> (\<forall>s \<in> set fb. s \<le> 2)"
  then obtain v' where v': "update_keyboard kb guess fb c = Some v'" and ge: "2 \<le> v'"
    using update_keyboard_grows [of kb c 2 guess fb] by blast
  have "v' \<le> 2"
  proof (rule update_keyboard_upper [where hi = 2, OF _ _ _ v'])
    fix v assume "kb c = Some v"
    with h show "v \<le> 2" by simp
  next
    fix s assume "s \<in> set fb"
    with h show "s \<le> 2" by simp
  qed simp
  with ge v' show "update_keyboard kb guess fb c = Some 2" by simp
qed

theorem update_keyboard_monotonic_witness:
  "[CHR ''a'' \<mapsto> (2::int)] CHR ''a'' = Some 2 \<and> list_all (\<lambda>s. s \<le> 2) [1, 0, 0, 0, 0 :: int] \<and>
   update_keyboard [CHR ''a'' \<mapsto> 2] ''alarm'' [1, 0, 0, 0, 0] CHR ''a'' = Some 2 \<and>
   dict_get [CHR ''a'' \<mapsto> 2] CHR ''a'' (- 1)
     \<le> dict_get (update_keyboard [CHR ''a'' \<mapsto> 2] ''alarm'' [1, 0, 0, 0, 0]) CHR ''a'' (- 1)"
proof -
  have h1: "[CHR ''a'' \<mapsto> (2::int)] CHR ''a'' = Some 2" by simp
  have h2': "list_all (\<lambda>s. s \<le> 2) [1, 0, 0, 0, 0 :: int]" by simp
  have h2: "\<forall>s \<in> set [1, 0, 0, 0, 0 :: int]. s \<le> 2" by simp
  from update_keyboard_monotonic [of "[CHR ''a'' \<mapsto> 2]" "CHR ''a''" "''alarm''" "[1, 0, 0, 0, 0]"]
    h1 h2 h2' show ?thesis by blast
qed

lemma update_keyboard_all_lower:
  "(\<And>v. kb c = Some v \<Longrightarrow> lo \<le> v) \<Longrightarrow>
   (\<And>guess fb s. (guess, fb) \<in> set calls \<Longrightarrow> s \<in> set fb \<Longrightarrow> lo \<le> s) \<Longrightarrow>
   update_keyboard_all kb calls c = Some v \<Longrightarrow> lo \<le> v"
proof (induction calls arbitrary: kb v)
  case Nil
  then show ?case by simp
next
  case (Cons call calls)
  obtain guess fb where call: "call = (guess, fb)" by (cases call)
  have k: "\<And>w. update_keyboard kb guess fb c = Some w \<Longrightarrow> lo \<le> w"
    by (rule update_keyboard_lower [of kb c lo fb guess])
       (use Cons.prems(1) Cons.prems(2) [of guess fb] call in simp_all)
  have f: "\<And>g f s. (g, f) \<in> set calls \<Longrightarrow> s \<in> set f \<Longrightarrow> lo \<le> s"
  proof -
    fix g f s assume "(g, f) \<in> set calls" and "s \<in> set f"
    then show "lo \<le> s" using Cons.prems(2) [of g f s] by simp
  qed
  have u: "update_keyboard_all (update_keyboard kb guess fb) calls c = Some v"
    using Cons.prems(3) call by simp
  show ?case by (rule Cons.IH [OF k f u])
qed

lemma update_keyboard_all_upper:
  "(\<And>v. kb c = Some v \<Longrightarrow> v \<le> hi) \<Longrightarrow>
   (\<And>guess fb s. (guess, fb) \<in> set calls \<Longrightarrow> s \<in> set fb \<Longrightarrow> s \<le> hi) \<Longrightarrow>
   - 1 \<le> hi \<Longrightarrow> update_keyboard_all kb calls c = Some v \<Longrightarrow> v \<le> hi"
proof (induction calls arbitrary: kb v)
  case Nil
  then show ?case by simp
next
  case (Cons call calls)
  obtain guess fb where call: "call = (guess, fb)" by (cases call)
  have k: "\<And>w. update_keyboard kb guess fb c = Some w \<Longrightarrow> w \<le> hi"
    by (rule update_keyboard_upper [of kb c hi fb guess])
       (use Cons.prems(1) Cons.prems(2) [of guess fb] Cons.prems(3) call in simp_all)
  have f: "\<And>g f s. (g, f) \<in> set calls \<Longrightarrow> s \<in> set f \<Longrightarrow> s \<le> hi"
  proof -
    fix g f s assume "(g, f) \<in> set calls" and "s \<in> set f"
    then show "s \<le> hi" using Cons.prems(2) [of g f s] by simp
  qed
  have u: "update_keyboard_all (update_keyboard kb guess fb) calls c = Some v"
    using Cons.prems(4) call by simp
  show ?case by (rule Cons.IH [OF k f Cons.prems(3) u])
qed

lemma key_class_total:
  "(\<And>v. kb ch = Some v \<Longrightarrow> 0 \<le> v \<and> v \<le> 2) \<Longrightarrow> \<exists>cls. key_class kb ch = Inr cls"
proof (cases "kb ch")
  case None
  then show ?thesis by (simp add: key_class_def)
next
  case (Some v)
  assume "\<And>v. kb ch = Some v \<Longrightarrow> 0 \<le> v \<and> v \<le> 2"
  with Some have "v = 0 \<or> v = 1 \<or> v = 2" by force
  with Some show ?thesis by (auto simp add: key_class_def STATUS_TO_CLASS_def)
qed

lemma render_row_total:
  "(\<And>ch v. kb ch = Some v \<Longrightarrow> 0 \<le> v \<and> v \<le> 2) \<Longrightarrow> \<exists>pieces. render_row kb r = Inr pieces"
proof (induction r)
  case Nil
  show ?case by simp
next
  case (Cons ch r)
  from key_class_total [of kb ch] Cons.prems obtain cls where "key_class kb ch = Inr cls"
    by blast
  moreover from Cons.IH Cons.prems obtain pieces where "render_row kb r = Inr pieces"
    by blast
  ultimately show ?case by simp
qed

lemma render_rows_total:
  "(\<And>ch v. kb ch = Some v \<Longrightarrow> 0 \<le> v \<and> v \<le> 2) \<Longrightarrow> \<exists>html. render_rows kb rows = Inr html"
proof (induction rows)
  case Nil
  show ?case by simp
next
  case (Cons r rows)
  from render_row_total [of kb r] Cons.prems obtain pieces where "render_row kb r = Inr pieces"
    by blast
  moreover from Cons.IH Cons.prems obtain html where "render_rows kb rows = Inr html"
    by blast
  ultimately show ?case by simp
qed

text \<open>
  C10: after any number of keyboard updates from the empty keyboard, with feedback values
  among 0, 1 and 2, every stored value is 0, 1 or 2, so the class lookup succeeds for
  every letter and \<open>render_keyboard\<close> raises nothing.
\<close>

theorem keyboard_values_in_range:
  assumes "\<forall>(guess, fb) \<in> set calls. \<forall>s \<in> set fb. s \<in> {0, 1, 2}"
  shows "(\<forall>ch v. update_keyboard_all Map.empty calls ch = Some v \<longrightarrow> v \<in> {0, 1, 2}) \<and>
     (\<forall>ch. \<exists>cls. key_class (update_keyboard_all Map.empty calls) ch = Inr cls) \<and>
     (\<exists>html. render_keyboard (update_keyboard_all Map.empty calls) = Inr html)"
proof -
  let ?kb = "update_keyboard_all Map.empty calls"
  have fb: "\<And>guess fb s. (guess, fb) \<in> set calls \<Longrightarrow> s \<in> set fb \<Longrightarrow> 0 \<le> s \<and> s \<le> 2"
    using assms by fastforce
  have rng: "\<And>ch v. ?kb ch = Some v \<Longrightarrow> 0 \<le> v \<and> v \<le> 2"
  proof -
    fix ch v assume v: "?kb ch = Some v"
    have "0 \<le> v"
      by (rule update_keyboard_all_lower [of Map.empty ch 0 calls v]) (use fb v in simp_all)
    moreover have "v \<le> 2"
      by (rule update_keyboard_all_upper [of Map.empty ch 2 calls v]) (use fb v in simp_all)
    ultimately show "0 \<le> v \<and> v \<le> 2" by simp
  qed
  have a: "\<forall>ch v. ?kb ch = Some v \<longrightarrow> v \<in> {0, 1, 2}"
  proof (intro allI impI)
    fix ch v assume "?kb ch = Some v"
    from rng [OF this] have "v = 0 \<or> v = 1 \<or> v = 2" by force
    then show "v \<in> {0, 1, 2}" by simp
  qed
  have b: "\<forall>ch. \<exists>cls. key_class ?kb ch = Inr cls"
    using key_class_total [of ?kb] rng by blast
  have c: "\<exists>html. render_keyboard ?kb = Inr html"
    unfolding render_keyboard_def using render_rows_total [of ?kb] rng by blast
  from a b c show ?thesis by blast
qed

theorem keyboard_values_in_range_witness:
  "list_all (\<lambda>(guess, fb). list_all (\<lambda>s. s \<in> {0, 1, 2 :: int}) fb)
     [(''trace'', [0, 2, 2, 1, 2]), (''crane'', [2, 2, 2, 2, 2])] \<and>
   update_keyboard_all Map.empty
        [(''trace'', [0, 2, 2, 1, 2]), (''crane'', [2, 2, 2, 2, 2])] CHR ''c'' = Some 2 \<and>
   (2::int) \<in> {0, 1, 2} \<and>
   (\<exists>cls. key_class (update_keyboard_all Map.empty
        [(''trace'', [0, 2, 2, 1, 2]), (''crane'', [2, 2, 2, 2, 2])]) CHR ''c'' = Inr cls) \<and>
   (\<exists>html. render_keyboard (update_keyboard_all Map.empty
        [(''trace'', [0, 2, 2, 1, 2]), (''crane'', [2, 2, 2, 2, 2])]) = Inr html)"
proof -
  let ?calls = "[(''trace'', [0, 2, 2, 1, 2 :: int]), (''crane'', [2, 2, 2, 2, 2])]"
  have h': "list_all (\<lambda>(guess, fb). list_all (\<lambda>s. s \<in> {0, 1, 2 :: int}) fb) ?calls"
    by simp
  have h: "\<forall>(guess, fb) \<in> set ?calls. \<forall>s \<in> set fb. s \<in> {0, 1, 2 :: int}"
    by simp
  have c: "update_keyboard_all Map.empty ?calls CHR ''c'' = Some 2"
    by code_simp
  from keyboard_values_in_range [OF h] obtain html where
    r: "render_keyboard (update_keyboard_all Map.empty ?calls) = Inr html" and
    v: "\<forall>ch v. update_keyboard_all Map.empty ?calls ch = Some v \<longrightarrow> v \<in> {0, 1, 2}" and
    k: "\<forall>ch. \<exists>cls. key_class (update_keyboard_all Map.empty ?calls) ch = Inr cls"
    by blast
  from v c have "(2::int) \<in> {0, 1, 2}" by blast
  with h' c r k show ?thesis by blast
qed

section \<open>Submitting guesses\<close>

lemma process_guess_invalid:
  "\<not> valid_guess guess \<Longrightarrow> process_guess s guess = Inr (InvalidGuess, s)"
  by (auto simp add: process_guess_def valid_guess_def)

lemma process_guess_valid:
  assumes "valid_guess guess"
  shows "\<exists>fb. wordle_feedback guess (answer s) = Inr fb \<and> length fb = WORD_LENGTH \<and>
     process_guess s guess =
       (if guess = answer s then
          Inr (Won, s\<lparr>guesses := guesses s @ [guess], feedbacks := feedbacks s @ [fb],
                       keyboard := update_keyboard (keyboard s) guess fb, game_over := True\<rparr>)
        else if MAX_GUESSES \<le> Suc (length (guesses s)) then
          Inr (Lost, s\<lparr>guesses := guesses s @ [guess], feedbacks := feedbacks s @ [fb],
                        keyboard := update_keyboard (keyboard s) guess fb, game_over := True\<rparr>)
        else
          Inr (InProgress, s\<lparr>guesses := guesses s @ [guess], feedbacks := feedbacks s @ [fb],
                              keyboard := update_keyboard (keyboard s) guess fb\<rparr>))"
proof -
  have "length guess \<le> WORD_LENGTH" using assms by (simp add: valid_guess_def)
  from wordle_feedback_total [OF this, of "answer s"] obtain fb where
    fb: "wordle_feedback guess (answer s) = Inr fb" and len: "length fb = WORD_LENGTH"
    by blast
  have "process_guess s guess =
       (if guess = answer s then
          Inr (Won, s\<lparr>guesses := guesses s @ [guess], feedbacks := feedbacks s @ [fb],
                       keyboard := update_keyboard (keyboard s) guess fb, game_over := True\<rparr>)
        else if MAX_GUESSES \<le> Suc (length (guesses s)) then
          Inr (Lost, s\<lparr>guesses := guesses s @ [guess], feedbacks := feedbacks s @ [fb],
                        keyboard := update_keyboard (keyboard s) guess fb, game_over := True\<rparr>)
        else
          Inr (InProgress, s\<lparr>guesses := guesses s @ [guess], feedbacks := feedbacks s @ [fb],
                              keyboard := update_keyboard (keyboard s) guess fb\<rparr>))"
    using assms by (simp add: process_guess_def valid_guess_def fb Let_def)
  with fb len show ?thesis by blast
qed

lemma submitGuess_terminated:
  "game_over s \<Longrightarrow> submitGuess s raw = Inr (SessionTerminated, s)"
  by (simp add: submitGuess_def)


lemma submitGuess_won:
  assumes "\<not> game_over s" and "valid_guess (py_lower (py_strip raw))"
    and "py_lower (py_strip raw) = answer s"
  shows "\<exists>s'. submitGuess s raw = Inr (Won, s') \<and> game_over s' \<and>
     guesses s' = guesses s @ [answer s] \<and> answer s' = answer s \<and> words s' = words s \<and>
     length (feedbacks s') = Suc (length (feedbacks s))"
proof -
  from process_guess_valid [OF assms(2), of s] obtain fb where
    "process_guess s (py_lower (py_strip raw)) =
       Inr (Won, s\<lparr>guesses := guesses s @ [py_lower (py_strip raw)],
                    feedbacks := feedbacks s @ [fb],
                    keyboard := update_keyboard (keyboard s) (py_lower (py_strip raw)) fb,
                    game_over := True\<rparr>)"
    using assms(3) by auto
  then show ?thesis using assms(1,3) by (simp add: submitGuess_def)
qed

lemma submitGuess_lost:
  assumes "\<not> game_over s" and "valid_guess (py_lower (py_strip raw))"
    and "py_lower (py_strip raw) \<noteq> answer s" and "MAX_GUESSES \<le> Suc (length (guesses s))"
  shows "\<exists>s'. submitGuess s raw = Inr (Lost, s') \<and> game_over s' \<and>
     guesses s' = guesses s @ [py_lower (py_strip raw)] \<and> answer s' = answer s \<and>
     words s' = words s \<and> length (feedbacks s') = Suc (length (feedbacks s))"
proof -
  from process_guess_valid [OF assms(2), of s] obtain fb where
    "process_guess s (py_lower (py_strip raw)) =
       Inr (Lost, s\<lparr>guesses := guesses s @ [py_lower (py_strip raw)],
                    feedbacks := feedbacks s @ [fb],
                    keyboard := update_keyboard (keyboard s) (py_lower (py_strip raw)) fb,
                    game_over := True\<rparr>)"
    using assms(3,4) by auto
  then show ?thesis using assms(1) by (simp add: submitGuess_def)
qed

lemma submitGuess_continue:
  assumes "\<not> game_over s" and "valid_guess (py_lower (py_strip raw))"
    and "py_lower (py_strip raw) \<noteq> answer s" and "Suc (length (guesses s)) < MAX_GUESSES"
  shows "\<exists>s'. submitGuess s raw = Inr (InProgress, s') \<and> \<not> game_over s' \<and>
     guesses s' = guesses s @ [py_lower (py_strip raw)] \<and> answer s' = answer s \<and>
     words s' = words s \<and> length (feedbacks s') = Suc (length (feedbacks s))"
proof -
  from process_guess_valid [OF assms(2), of s] obtain fb where
    "process_guess s (py_lower (py_strip raw)) =
       Inr (InProgress, s\<lparr>guesses := guesses s @ [py_lower (py_strip raw)],
                    feedbacks := feedbacks s @ [fb],
                    keyboard := update_keyboard (keyboard s) (py_lower (py_strip raw)) fb\<rparr>)"
    using assms(3,4) by auto
  then show ?thesis using assms(1) by (simp add: submitGuess_def)
qed

lemma submit_all_continue:
  "\<not> game_over s \<Longrightarrow>
   (\<And>raw. raw \<in> set raws \<Longrightarrow>
      valid_guess (py_lower (py_strip raw)) \<and> py_lower (py_strip raw) \<noteq> answer s) \<Longrightarrow>
   length (guesses s) + length raws < MAX_GUESSES \<Longrightarrow>
   \<exists>s1. submit_all s raws = Inr (replicate (length raws) InProgress, s1) \<and> \<not> game_over s1 \<and>
      answer s1 = answer s \<and> words s1 = words s \<and>
      length (guesses s1) = length (guesses s) + length raws"
proof (induction raws arbitrary: s)
  case Nil
  then show ?case by simp
next
  case (Cons raw raws)
  have v: "valid_guess (py_lower (py_strip raw))" and n: "py_lower (py_strip raw) \<noteq> answer s"
    using Cons.prems(2) [of raw] by simp_all
  have lt: "Suc (length (guesses s)) < MAX_GUESSES" using Cons.prems(3) by simp
  from submitGuess_continue [OF Cons.prems(1) v n lt] obtain s' where
    st: "submitGuess s raw = Inr (InProgress, s')" and go: "\<not> game_over s'" and
    g: "guesses s' = guesses s @ [py_lower (py_strip raw)]" and a: "answer s' = answer s" and
    w: "words s' = words s"
    by blast
  have r: "\<And>x. x \<in> set raws \<Longrightarrow>
      valid_guess (py_lower (py_strip x)) \<and> py_lower (py_strip x) \<noteq> answer s'"
    using Cons.prems(2) a by simp
  have l: "length (guesses s') + length raws < MAX_GUESSES" using Cons.prems(3) g by simp
  from Cons.IH [OF go r l] obtain s1 where
    "submit_all s' raws = Inr (replicate (length raws) InProgress, s1)" and "\<not> game_over s1" and
    "answer s1 = answer s'" and "words s1 = words s'" and
    "length (guesses s1) = length (guesses s') + length raws"
    by blast
  then show ?case using st g a w by simp
qed

lemma submit_all_append:
  "submit_all s (xs @ ys) =
     (case submit_all s xs of
        Inl e \<Rightarrow> Inl e
      | Inr (outs, s') \<Rightarrow>
          (case submit_all s' ys of
             Inl e \<Rightarrow> Inl e
           | Inr (outs', s'') \<Rightarrow> Inr (outs @ outs', s'')))"
  by (induction xs arbitrary: s) (auto split: sum.splits prod.splits)

text \<open>
  C3: from a fresh session, after fewer than \<open>MAX_GUESSES\<close> valid submissions that miss
  the answer, a valid submission equal to the answer has the outcome \<open>Won\<close> and ends
  the game.  This includes the case of \<open>MAX_GUESSES - 1\<close> earlier submissions, where the
  matching guess is the last one allowed: the handler compares the guess with the answer
  before it counts the guesses.
\<close>

theorem matching_guess_wins:
  assumes "guesses s0 = []" and "\<not> game_over s0"
    and "\<forall>r \<in> set raws. valid_guess (py_lower (py_strip r)) \<and> py_lower (py_strip r) \<noteq> answer s0"
    and "length raws < MAX_GUESSES"
    and "valid_guess (py_lower (py_strip raw))" and "py_lower (py_strip raw) = answer s0"
  shows "\<exists>s2. submit_all s0 (raws @ [raw]) = Inr (replicate (length raws) InProgress @ [Won], s2) \<and>
     game_over s2 \<and> length (guesses s2) = Suc (length raws) \<and> last (guesses s2) = answer s0"
proof -
  have l: "length (guesses s0) + length raws < MAX_GUESSES" using assms(1,4) by simp
  from submit_all_continue [OF assms(2) _ l] assms(3) obtain s1 where
    run: "submit_all s0 raws = Inr (replicate (length raws) InProgress, s1)" and
    go: "\<not> game_over s1" and a: "answer s1 = answer s0" and
    len: "length (guesses s1) = length (guesses s0) + length raws"
    by blast
  have m: "py_lower (py_strip raw) = answer s1" using assms(6) a by simp
  from submitGuess_won [OF go assms(5) m] obtain s2 where
    w: "submitGuess s1 raw = Inr (Won, s2)" and go2: "game_over s2" and
    g2: "guesses s2 = guesses s1 @ [answer s1]"
    by blast
  have "submit_all s0 (raws @ [raw]) = Inr (replicate (length raws) InProgress @ [Won], s2)"
    by (simp add: submit_all_append run w)
  moreover have "length (guesses s2) = Suc (length raws)" using g2 len assms(1) by simp
  moreover have "last (guesses s2) = answer s0" using g2 a by simp
  ultimately show ?thesis using go2 by blast
qed

theorem matching_guess_wins_witness:
  "guesses (fresh_session [''crane''] ''crane'') = [] \<and>
   \<not> game_over (fresh_session [''crane''] ''crane'') \<and>
   list_all (\<lambda>r. valid_guess (py_lower (py_strip r)) \<and>
                py_lower (py_strip r) \<noteq> answer (fresh_session [''crane''] ''crane''))
     [''trace'', ''slate'', ''brain'', ''Crate'', ''DRAIN''] \<and>
   Suc (length [''trace'', ''slate'', ''brain'', ''Crate'', ''DRAIN'']) = MAX_GUESSES \<and>
   valid_guess (py_lower (py_strip ''crane'')) \<and>
   py_lower (py_strip ''crane'') = answer (fresh_session [''crane''] ''crane'') \<and>
   (\<exists>s2. submit_all (fresh_session [''crane''] ''crane'')
            ([''trace'', ''slate'', ''brain'', ''Crate'', ''DRAIN''] @ [''crane'']) =
          Inr (replicate (length [''trace'', ''slate'', ''brain'', ''Crate'', ''DRAIN''])
                 InProgress @ [Won], s2) \<and> game_over s2)"
proof -
  let ?s = "fresh_session [''crane''] ''crane''"
  let ?raws = "[''trace'', ''slate'', ''brain'', ''Crate'', ''DRAIN'']"
  have h1: "guesses ?s = []" and h2: "\<not> game_over ?s"
    by (simp_all add: fresh_session_def)
  have h3': "list_all (\<lambda>r. valid_guess (py_lower (py_strip r)) \<and>
      py_lower (py_strip r) \<noteq> answer ?s) ?raws"
    by code_simp
  then have h3: "\<forall>r \<in> set ?raws. valid_guess (py_lower (py_strip r)) \<and>
      py_lower (py_strip r) \<noteq> answer ?s"
    by (simp only: list_all_iff)
  have h4: "length ?raws < MAX_GUESSES" and h4': "Suc (length ?raws) = MAX_GUESSES"
    by (simp_all add: MAX_GUESSES_def)
  have h5: "valid_guess (py_lower (py_strip ''crane''))" by code_simp
  have h6: "py_lower (py_strip ''crane'') = answer ?s" by code_simp
  from matching_guess_wins [OF h1 h2 h3 h4 h5 h6] h1 h2 h3' h4' h5 h6 show ?thesis by blast
qed

text \<open>
  C4: from a fresh session, \<open>MAX_GUESSES\<close> valid submissions that all miss the answer
  end with the outcome \<open>Lost\<close> and a finished game holding \<open>MAX_GUESSES\<close> guesses;
  from then on every submission has the outcome \<open>SessionTerminated\<close> and leaves the
  whole session, with its history, keyboard and answer, as it was.
\<close>

theorem lost_after_max_guesses:
  assumes "guesses s0 = []" and "\<not> game_over s0"
    and "length raws = MAX_GUESSES"
    and "\<forall>r \<in> set raws. valid_guess (py_lower (py_strip r)) \<and> py_lower (py_strip r) \<noteq> answer s0"
  shows "\<exists>s1. submit_all s0 raws = Inr (replicate (MAX_GUESSES - 1) InProgress @ [Lost], s1) \<and>
     game_over s1 \<and> length (guesses s1) = MAX_GUESSES \<and> answer s1 = answer s0 \<and>
     (\<forall>raw. submitGuess s1 raw = Inr (SessionTerminated, s1))"
proof -
  from assms(3) have ne: "raws \<noteq> []" by (auto simp add: MAX_GUESSES_def)
  define pre where "pre = butlast raws"
  define final where "final = last raws"
  have split: "raws = pre @ [final]" using ne by (simp add: pre_def final_def)
  have lp: "length pre = MAX_GUESSES - 1" using assms(3) by (simp add: pre_def)
  have l: "length (guesses s0) + length pre < MAX_GUESSES"
    using assms(1) lp by (simp add: MAX_GUESSES_def)
  have hp: "\<And>r. r \<in> set pre \<Longrightarrow>
      valid_guess (py_lower (py_strip r)) \<and> py_lower (py_strip r) \<noteq> answer s0"
    using assms(4) split by simp
  from submit_all_continue [OF assms(2) hp l] obtain s' where
    run: "submit_all s0 pre = Inr (replicate (length pre) InProgress, s')" and
    go: "\<not> game_over s'" and a: "answer s' = answer s0" and
    len: "length (guesses s') = length (guesses s0) + length pre"
    by blast
  have v: "valid_guess (py_lower (py_strip final))" and n: "py_lower (py_strip final) \<noteq> answer s'"
    using assms(4) split a by simp_all
  have full: "MAX_GUESSES \<le> Suc (length (guesses s'))"
    using len lp assms(1) by simp
  from submitGuess_lost [OF go v n full] obtain s1 where
    st: "submitGuess s' final = Inr (Lost, s1)" and go1: "game_over s1" and
    g1: "guesses s1 = guesses s' @ [py_lower (py_strip final)]" and a1: "answer s1 = answer s'"
    by blast
  have "submit_all s0 raws = Inr (replicate (MAX_GUESSES - 1) InProgress @ [Lost], s1)"
    unfolding split by (simp add: submit_all_append run st lp)
  moreover have "length (guesses s1) = MAX_GUESSES"
    using g1 len lp assms(1) by (simp add: MAX_GUESSES_def)
  moreover have "\<forall>raw. submitGuess s1 raw = Inr (SessionTerminated, s1)"
    using go1 by (simp add: submitGuess_terminated)
  ultimately show ?thesis using go1 a1 a by auto
qed

theorem lost_after_max_guesses_witness:
  "guesses (fresh_session [''crane''] ''crane'') = [] \<and>
   \<not> game_over (fresh_session [''crane''] ''crane'') \<and>
   length [''trace'', ''slate'', ''brain'', ''crate'', ''drain'', ''train''] = MAX_GUESSES \<and>
   list_all (\<lambda>r. valid_guess (py_lower (py_strip r)) \<and>
                py_lower (py_strip r) \<noteq> answer (fresh_session [''crane''] ''crane''))
     [''trace'', ''slate'', ''brain'', ''crate'', ''drain'', ''train''] \<and>
   (\<exists>s1. submit_all (fresh_session [''crane''] ''crane'')
            [''trace'', ''slate'', ''brain'', ''crate'', ''drain'', ''train''] =
          Inr (replicate (MAX_GUESSES - 1) InProgress @ [Lost], s1) \<and> game_over s1 \<and>
          submitGuess s1 ''crane'' = Inr (SessionTerminated, s1))"
proof -
  let ?s = "fresh_session [''crane''] ''crane''"
  let ?raws = "[''trace'', ''slate'', ''brain'', ''crate'', ''drain'', ''train'']"
  have h1: "guesses ?s = []" and h2: "\<not> game_over ?s"
    by (simp_all add: fresh_session_def)
  have h3: "length ?raws = MAX_GUESSES" by (simp add: MAX_GUESSES_def)
  have h4': "list_all (\<lambda>r. valid_guess (py_lower (py_strip r)) \<and>
      py_lower (py_strip r) \<noteq> answer ?s) ?raws"
    by code_simp
  then have h4: "\<forall>r \<in> set ?raws. valid_guess (py_lower (py_strip r)) \<and>
      py_lower (py_strip r) \<noteq> answer ?s"
    by (simp only: list_all_iff)
  from lost_after_max_guesses [OF h1 h2 h3 h4] h1 h2 h3 h4' show ?thesis by blast
qed

text \<open>
  C5 (as the code behaves): when the stripped, lower-cased text fails the validation, the
  session is returned unchanged, with the outcome \<open>InvalidGuess\<close> while the game is on
  (and \<open>SessionTerminated\<close> once it is over).
\<close>

theorem invalid_guess_rejected:
  assumes "\<not> valid_guess (py_lower (py_strip raw))"
  shows "submitGuess s raw = Inr (if game_over s then SessionTerminated else InvalidGuess, s)"
  using assms by (simp add: submitGuess_def process_guess_invalid)

theorem invalid_guess_rejected_witness:
  "\<not> valid_guess (py_lower (py_strip ''ab3de'')) \<and>
   submitGuess (fresh_session [''crane''] ''crane'') ''ab3de'' =
     Inr (InvalidGuess, fresh_session [''crane''] ''crane'')"
proof -
  have h: "\<not> valid_guess (py_lower (py_strip ''ab3de''))" by code_simp
  have g: "\<not> game_over (fresh_session [''crane''] ''crane'')" by (simp add: fresh_session_def)
  from invalid_guess_rejected [OF h, of "fresh_session [''crane''] ''crane''"] g h
  show ?thesis by simp
qed

text \<open>
  C5 (as stated): the text "Trace" contains a character outside a to z, yet its submission
  is accepted and recorded as "trace".
\<close>

theorem raw_invalid_guess_accepted:
  "\<not> valid_guess ''Trace'' \<and>
   result_outcome (submitGuess (fresh_session [''crane''] ''crane'') ''Trace'') = Some InProgress \<and>
   map_option guesses (result_session (submitGuess (fresh_session [''crane''] ''crane'') ''Trace''))
     = Some [''trace'']"
  by code_simp




section \<open>Drawing raises nothing on a well-formed session\<close>

lemma fp_marks_values:
  "x \<in> set (fp_marks ps rs) \<Longrightarrow> x = 2 \<or> x \<in> set rs"
proof -
  assume "x \<in> set (fp_marks ps rs)"
  then obtain g a r where m: "((g, a), r) \<in> set (zip ps rs)" and
    x: "x = (if g = a then 2 else r)"
    by (auto simp add: fp_marks_def)
  from m have "r \<in> set rs" by (rule set_zip_rightD)
  with x show ?thesis by auto
qed

lemma sp_marks_values:
  "x \<in> set (sp_marks gs rs remaining) \<Longrightarrow> x = 0 \<or> x = 1 \<or> x \<in> set rs"
  by (induction gs rs remaining arbitrary: x rule: sp_marks.induct)
     (auto simp del: fun_upd_apply split: if_splits)

lemma wordle_feedback_values:
  assumes "length guess \<le> WORD_LENGTH" and "wordle_feedback guess ans = Inr fb"
  shows "list_all (\<lambda>s. 0 \<le> s \<and> s \<le> 2) fb"
proof -
  let ?ps = "zip guess ans"
  let ?zs = "replicate WORD_LENGTH (0::int)"
  let ?R = "fp_marks ?ps ?zs @ drop (length ?ps) ?zs"
  have lps: "length ?ps \<le> length ?zs" using assms(1) by simp
  have fp: "first_pass 0 ?ps ?zs Map.empty = Inr (?R, fp_counts ?ps Map.empty)"
    using first_pass_slice [OF lps, of "[]" Map.empty] by simp
  have lR: "length ?R = WORD_LENGTH"
    using lps by (simp add: length_fp_marks)
  have lg: "length guess \<le> length ?R" using assms(1) lR by simp
  have sp: "second_pass 0 guess ?R (fp_counts ?ps Map.empty) =
      Inr (sp_marks guess ?R (fp_counts ?ps Map.empty) @ drop (length guess) ?R)"
    using second_pass_slice [OF lg, of "[]" "fp_counts ?ps Map.empty"] by simp
  have "wordle_feedback guess ans =
      Inr (sp_marks guess ?R (fp_counts ?ps Map.empty) @ drop (length guess) ?R)"
    unfolding wordle_feedback_def fp using sp by simp
  with assms(2) have fb: "fb = sp_marks guess ?R (fp_counts ?ps Map.empty) @ drop (length guess) ?R"
    by simp
  have R: "\<And>x. x \<in> set ?R \<Longrightarrow> x = 0 \<or> x = 2"
  proof -
    fix x assume "x \<in> set ?R"
    then have "x \<in> set (fp_marks ?ps ?zs) \<or> x \<in> set (drop (length ?ps) ?zs)" by simp
    then show "x = 0 \<or> x = 2"
    proof
      assume "x \<in> set (fp_marks ?ps ?zs)"
      from fp_marks_values [OF this] show ?thesis by auto
    next
      assume "x \<in> set (drop (length ?ps) ?zs)"
      then have "x \<in> set ?zs" by (rule in_set_dropD)
      then show ?thesis by simp
    qed
  qed
  have "\<And>x. x \<in> set fb \<Longrightarrow> 0 \<le> x \<and> x \<le> 2"
  proof -
    fix x assume "x \<in> set fb"
    then have "x \<in> set (sp_marks guess ?R (fp_counts ?ps Map.empty)) \<or>
        x \<in> set (drop (length guess) ?R)"
      unfolding fb by simp
    then have "x = 0 \<or> x = 1 \<or> x \<in> set ?R"
    proof
      assume "x \<in> set (sp_marks guess ?R (fp_counts ?ps Map.empty))"
      then show ?thesis by (rule sp_marks_values)
    next
      assume "x \<in> set (drop (length guess) ?R)"
      then have "x \<in> set ?R" by (rule in_set_dropD)
      then show ?thesis by simp
    qed
    then have "x = 0 \<or> x = 1 \<or> x = 2" using R by blast
    then show "0 \<le> x \<and> x \<le> 2" by auto
  qed
  then show ?thesis by (simp add: list_all_iff)
qed

lemma render_tiles_total:
  "j + length fb \<le> length g \<Longrightarrow> list_all (\<lambda>s. 0 \<le> s \<and> s \<le> 2) fb \<Longrightarrow>
   \<exists>tiles. render_tiles g j fb = Inr tiles"
proof (induction fb arbitrary: j)
  case Nil
  show ?case by simp
next
  case (Cons s fb)
  from Cons.prems(2) have "s = 0 \<or> s = 1 \<or> s = 2" by force
  then obtain cls where cls: "STATUS_TO_CLASS s = Some cls"
    by (auto simp add: STATUS_TO_CLASS_def)
  have j: "j < length g" using Cons.prems(1) by simp
  have "Suc j + length fb \<le> length g" using Cons.prems(1) by simp
  moreover have "list_all (\<lambda>s. 0 \<le> s \<and> s \<le> 2) fb" using Cons.prems(2) by simp
  ultimately obtain tiles where "render_tiles g (Suc j) fb = Inr tiles"
    using Cons.IH by blast
  then show ?case using cls j by simp
qed

lemma render_board_rows_total:
  "list_all2 feedback_ok gs fbs \<Longrightarrow> \<exists>rows. render_board_rows gs fbs is = Inr rows"
proof (induction "is")
  case Nil
  show ?case by simp
next
  case (Cons i "is")
  from Cons.IH [OF Cons.prems] obtain rows where rows: "render_board_rows gs fbs is = Inr rows"
    by blast
  have len: "length gs = length fbs" using Cons.prems by (rule list_all2_lengthD)
  show ?case
  proof (cases "i < length gs")
    case False
    then show ?thesis using rows by simp
  next
    case True
    from list_all2_nthD [OF Cons.prems True] have ok: "feedback_ok (gs ! i) (fbs ! i)" .
    then have "\<exists>tiles. render_tiles (gs ! i) 0 (fbs ! i) = Inr tiles"
      by (intro render_tiles_total) (simp_all add: feedback_ok_def)
    then obtain tiles where "render_tiles (gs ! i) 0 (fbs ! i) = Inr tiles" by blast
    then show ?thesis using True len rows by simp
  qed
qed

lemma render_total:
  assumes "board_inv s"
  shows "\<exists>board keys. render_board (guesses s) (feedbacks s) = Inr board \<and>
     render_keyboard (keyboard s) = Inr keys"
proof -
  from assms have "list_all2 feedback_ok (guesses s) (feedbacks s)"
    by (simp add: board_inv_def)
  from render_board_rows_total [OF this] obtain board where
    "render_board (guesses s) (feedbacks s) = Inr board"
    unfolding render_board_def by blast
  moreover have "\<exists>keys. render_rows (keyboard s) [''qwertyuiop'', ''asdfghjkl'', ''zxcvbnm'']
      = Inr keys"
    by (rule render_rows_total) (use assms in \<open>simp add: board_inv_def\<close>)
  ultimately show ?thesis unfolding render_keyboard_def by blast
qed

section \<open>The invariant of the running program\<close>

lemma choose_answer_total:
  "ws \<noteq> [] \<Longrightarrow> \<exists>a. choose_answer ws r = Inr a \<and> a \<in> set ws"
  by (simp add: choose_answer_def)

lemma reset_game_inv:
  assumes "session_inv s"
  shows "\<exists>s'. reset_game s r = Inr s' \<and> session_inv s' \<and> board_inv s' \<and> \<not> game_over s' \<and>
     guesses s' = [] \<and> feedbacks s' = [] \<and> keyboard s' = Map.empty \<and> words s' = words s \<and>
     choose_answer (words s) r = Inr (answer s')"
proof -
  from assms have "words s \<noteq> []" by (simp add: session_inv_def)
  from choose_answer_total [OF this, of r] obtain a where
    a: "choose_answer (words s) r = Inr a" by blast
  then show ?thesis
    using assms by (simp add: reset_game_def session_inv_def board_inv_def MAX_GUESSES_def)
qed

lemma process_guess_inv:
  assumes "\<not> game_over s" and "session_inv s" and "board_inv s"
  shows "\<exists>out s'. process_guess s guess = Inr (out, s') \<and> session_inv s' \<and> board_inv s' \<and>
     (out = InvalidGuess \<longrightarrow> s' = s)"
proof (cases "valid_guess guess")
  case False
  then show ?thesis using assms by (simp add: process_guess_invalid)
next
  case True
  from process_guess_valid [OF True, of s] obtain fb where
    fb: "wordle_feedback guess (answer s) = Inr fb" and lfb: "length fb = WORD_LENGTH" and
    pg: "process_guess s guess =
       (if guess = answer s then
          Inr (Won, s\<lparr>guesses := guesses s @ [guess], feedbacks := feedbacks s @ [fb],
                       keyboard := update_keyboard (keyboard s) guess fb, game_over := True\<rparr>)
        else if MAX_GUESSES \<le> Suc (length (guesses s)) then
          Inr (Lost, s\<lparr>guesses := guesses s @ [guess], feedbacks := feedbacks s @ [fb],
                        keyboard := update_keyboard (keyboard s) guess fb, game_over := True\<rparr>)
        else
          Inr (InProgress, s\<lparr>guesses := guesses s @ [guess], feedbacks := feedbacks s @ [fb],
                              keyboard := update_keyboard (keyboard s) guess fb\<rparr>))"
    by blast
  have lg: "length guess = WORD_LENGTH" using True by (simp add: valid_guess_def)
  have vals: "list_all (\<lambda>s. 0 \<le> s \<and> s \<le> 2) fb"
    by (rule wordle_feedback_values [OF _ fb]) (simp add: lg)
  have ok: "feedback_ok guess fb" using lg lfb vals by (simp add: feedback_ok_def)
  have l2: "list_all2 feedback_ok (guesses s @ [guess]) (feedbacks s @ [fb])"
    using assms(3) ok by (simp add: board_inv_def list_all2_appendI)
  have kb: "\<And>ch v. update_keyboard (keyboard s) guess fb ch = Some v \<Longrightarrow> 0 \<le> v \<and> v \<le> 2"
  proof -
    fix ch v assume u: "update_keyboard (keyboard s) guess fb ch = Some v"
    have old: "\<And>w. keyboard s ch = Some w \<Longrightarrow> 0 \<le> w \<and> w \<le> 2"
      using assms(3) by (simp add: board_inv_def)
    have new: "\<And>t. t \<in> set fb \<Longrightarrow> 0 \<le> t \<and> t \<le> 2"
      using vals by (simp add: list_all_iff)
    have "0 \<le> v"
      by (rule update_keyboard_lower [of "keyboard s" ch 0 fb guess v]) (use old new u in simp_all)
    moreover have "v \<le> 2"
      by (rule update_keyboard_upper [of "keyboard s" ch 2 fb guess v]) (use old new u in simp_all)
    ultimately show "0 \<le> v \<and> v \<le> 2" by simp
  qed
  have lt: "length (guesses s) < MAX_GUESSES" and fl: "length (feedbacks s) = length (guesses s)"
    and w: "words s \<noteq> []"
    using assms(1,2) by (simp_all add: session_inv_def)
  show ?thesis
    using pg l2 kb lt fl w
    by (auto simp add: session_inv_def board_inv_def)
qed

lemma main_block_inv:
  assumes "app_inv a"
  shows "\<exists>a' again. main_block a c r raw = Inr (a', again) \<and> app_inv a'"
proof (cases "game_over (sess a)")
  case True
  show ?thesis
  proof (cases "c = ClickPlayAgain")
    case False
    then show ?thesis using True assms by (auto simp add: main_block_def)
  next
    case pa: True
    from assms have "session_inv (sess a)" by (simp add: app_inv_def)
    from reset_game_inv [OF this, of r] obtain s' where
      "reset_game (sess a) r = Inr s'" "session_inv s'" "board_inv s'" "\<not> game_over s'"
      by blast
    then show ?thesis using True pa by (auto simp add: main_block_def app_inv_def)
  qed
next
  case False
  let ?guess = "py_lower (py_strip raw)"
  let ?submitted = "c = ClickSubmit \<or> (length ?guess = WORD_LENGTH \<and> enter_submit a)"
  show ?thesis
  proof (cases ?submitted)
    case ns: False
    then show ?thesis using False assms by (auto simp add: main_block_def app_inv_def Let_def)
  next
    case sub: True
    from assms have "session_inv (sess a)" and "board_inv (sess a)"
      by (simp_all add: app_inv_def)
    from process_guess_inv [OF False this, of ?guess] obtain out s' where
      "process_guess (sess a) ?guess = Inr (out, s')" "session_inv s'" "board_inv s'"
      by blast
    then show ?thesis using False sub by (auto simp add: main_block_def app_inv_def Let_def)
  qed
qed

lemma script_run_inv:
  assumes "app_inv a"
  shows "\<exists>a' again. script_run a c r raw = Inr (a', again) \<and> app_inv a'"
proof (cases "c = ClickRestart")
  case True
  from assms have "session_inv (sess a)" by (simp add: app_inv_def)
  from reset_game_inv [OF this, of r] obtain s' where
    "reset_game (sess a) r = Inr s'" "session_inv s'" "board_inv s'" "\<not> game_over s'"
    by blast
  then show ?thesis using True by (auto simp add: script_run_def app_inv_def)
next
  case False
  from assms have "board_inv (sess a)" by (simp add: app_inv_def)
  from render_total [OF this] obtain board keys where
    "render_board (guesses (sess a)) (feedbacks (sess a)) = Inr board"
    "render_keyboard (keyboard (sess a)) = Inr keys"
    by blast
  then have "script_run a c r raw = main_block a c r raw"
    using False by (simp add: script_run_def)
  then show ?thesis using main_block_inv [OF assms, of c r raw] by simp
qed

lemma run_to_rest_inv:
  "app_inv a \<Longrightarrow> \<exists>a'. run_to_rest a c r raw = Inr a' \<and> app_inv a'"
proof (induction a c r raw rule: run_to_rest.induct)
  case (1 a c r raw)
  from script_run_inv [OF "1.prems", of c r raw] obtain a1 again where
    run: "script_run a c r raw = Inr (a1, again)" and inv1: "app_inv a1"
    by blast
  show ?case
  proof (cases again)
    case False
    then show ?thesis using run inv1 by (subst run_to_rest.simps) simp
  next
    case True
    from "1.IH" [OF run refl True inv1] obtain a' where
      "run_to_rest a1 NoClick r raw = Inr a'" and "app_inv a'"
      by blast
    then show ?thesis using run True by (subst run_to_rest.simps) simp
  qed
qed

lemma run_command_inv:
  "app_inv a \<Longrightarrow> \<exists>a'. run_command a cmd = Inr a' \<and> app_inv a'"
  by (cases cmd) (simp_all add: restart_def play_again_def run_to_rest_inv)

lemma run_commands_inv:
  "app_inv a \<Longrightarrow> \<exists>a'. run_commands a cmds = Inr a' \<and> app_inv a'"
proof (induction cmds arbitrary: a)
  case Nil
  then show ?case by simp
next
  case (Cons cmd cmds)
  from run_command_inv [OF Cons.prems, of cmd] obtain a1 where
    a1: "run_command a cmd = Inr a1" and inv1: "app_inv a1"
    by blast
  from Cons.IH [OF inv1] show ?case by (simp add: a1)
qed

lemma init_app_inv:
  "init_app ws r = Inr a0 \<Longrightarrow> app_inv a0"
  by (auto simp add: init_app_def init_session_def choose_answer_def fresh_session_def
      app_inv_def session_inv_def board_inv_def MAX_GUESSES_def split: if_splits)

text \<open>
  C8: every sequence of submissions, text entries and restarts, run from a freshly
  initialised program with all the reruns they start, raises nothing and ends in a session
  that stores at most \<open>MAX_GUESSES\<close> guesses, each with its feedback.
\<close>

theorem guess_records_bounded:
  assumes "init_app ws r = Inr a0"
  shows "\<exists>a. run_commands a0 cmds = Inr a \<and> length (guesses (sess a)) \<le> MAX_GUESSES \<and>
     length (feedbacks (sess a)) = length (guesses (sess a))"
proof -
  have "app_inv a0" using assms by (rule init_app_inv)
  from run_commands_inv [OF this, of cmds] show ?thesis
    by (auto simp add: app_inv_def session_inv_def)
qed

theorem guess_records_bounded_witness:
  "init_app [''crane'', ''slate''] 2 = Inr (fresh_app [''crane'', ''slate''] ''crane'') \<and>
   (\<exists>a. run_commands (fresh_app [''crane'', ''slate''] ''crane'')
           [SubmitGuess ''trace'', Restart 1 ''trace'', EnterText ''slate'',
            PlayAgain 0 '''', SubmitGuess ''brain''] = Inr a \<and>
        length (guesses (sess a)) \<le> MAX_GUESSES)"
proof -
  have c: "choose_answer [''crane'', ''slate''] 2 = Inr ''crane''" by code_simp
  have h: "init_app [''crane'', ''slate''] 2 = Inr (fresh_app [''crane'', ''slate''] ''crane'')"
    by (simp add: init_app_def init_session_def c fresh_app_def)
  from guess_records_bounded [OF h] h show ?thesis by blast
qed

text \<open>
  A click on the submit button, with the rerun it starts, leaves the session that
  \<open>submitGuess\<close> computes.
\<close>

lemma submit_click_session:
  assumes "app_inv a"
  shows "\<exists>a'. run_to_rest a ClickSubmit r raw = Inr a' \<and>
     result_session (submitGuess (sess a) raw) = Some (sess a')"
proof -
  from assms have b: "board_inv (sess a)" by (simp add: app_inv_def)
  from render_total [OF b] have run1: "script_run a ClickSubmit r raw = main_block a ClickSubmit r raw"
    by (auto simp add: script_run_def)
  show ?thesis
  proof (cases "game_over (sess a)")
    case True
    then have "script_run a ClickSubmit r raw = Inr (a, False)"
      using run1 by (simp add: main_block_def)
    then have "run_to_rest a ClickSubmit r raw = Inr a"
      by (subst run_to_rest.simps) simp
    then show ?thesis using True by (simp add: submitGuess_def result_session_def)
  next
    case False
    let ?guess = "py_lower (py_strip raw)"
    from assms have "session_inv (sess a)" by (simp add: app_inv_def)
    from process_guess_inv [OF False this b, of ?guess] obtain out s' where
      pg: "process_guess (sess a) ?guess = Inr (out, s')" and si: "session_inv s'" and
      bi: "board_inv s'" and same: "out = InvalidGuess \<longrightarrow> s' = sess a"
      by blast
    let ?a1 = "a\<lparr>enter_submit := False, sess := s'\<rparr>"
    have first: "script_run a ClickSubmit r raw = Inr (?a1, out \<noteq> InvalidGuess)"
      using run1 False pg by (simp add: main_block_def)
    have sg: "result_session (submitGuess (sess a) raw) = Some s'"
      using False pg by (simp add: submitGuess_def result_session_def)
    show ?thesis
    proof (cases "out = InvalidGuess")
      case True
      then have "run_to_rest a ClickSubmit r raw = Inr ?a1"
        using first by (subst run_to_rest.simps) simp
      then show ?thesis using sg by simp
    next
      case again: False
      from render_total [OF bi] have "script_run ?a1 NoClick r raw = main_block ?a1 NoClick r raw"
        by (auto simp add: script_run_def)
      then have "\<exists>a2. script_run ?a1 NoClick r raw = Inr (a2, False) \<and> sess a2 = s'"
        by (auto simp add: main_block_def Let_def)
      then obtain a2 where second: "script_run ?a1 NoClick r raw = Inr (a2, False)" and
        s2: "sess a2 = s'"
        by blast
      have "run_to_rest ?a1 NoClick r raw = Inr a2"
        using second by (subst run_to_rest.simps) simp
      then have "run_to_rest a ClickSubmit r raw = Inr a2"
        using first again by (subst run_to_rest.simps) simp
      then show ?thesis using sg s2 by simp
    qed
  qed
qed

section \<open>Restart\<close>

text \<open>
  A run without a click leaves the session alone unless the flag is set and the text in
  the input box has \<open>WORD_LENGTH\<close> characters.
\<close>

lemma rest_without_flag:
  assumes "app_inv a" and "\<not> (enter_submit a \<and> length (py_lower (py_strip raw)) = WORD_LENGTH)"
  shows "\<exists>a'. run_to_rest a NoClick r raw = Inr a' \<and> sess a' = sess a"
proof -
  from assms(1) have "board_inv (sess a)" by (simp add: app_inv_def)
  from render_total [OF this] have "script_run a NoClick r raw = main_block a NoClick r raw"
    by (auto simp add: script_run_def)
  then have "\<exists>a'. script_run a NoClick r raw = Inr (a', False) \<and> sess a' = sess a"
    using assms(2) by (auto simp add: main_block_def Let_def)
  then obtain a' where "script_run a NoClick r raw = Inr (a', False)" and "sess a' = sess a"
    by blast
  then show ?thesis by (subst run_to_rest.simps) simp
qed

text \<open>
  A restart without such a pending text ends in the reset session, and so does every
  restart of a finished game, by either button: a finished game has the flag cleared.
\<close>

lemma restart_without_pending_guess:
  assumes "session_inv (sess a)"
    and "\<not> (enter_submit a \<and> length (py_lower (py_strip raw)) = WORD_LENGTH)"
  shows "\<exists>a'. restart a r raw = Inr a' \<and> guesses (sess a') = [] \<and> feedbacks (sess a') = [] \<and>
     keyboard (sess a') = Map.empty \<and> \<not> game_over (sess a') \<and>
     choose_answer (words (sess a)) r = Inr (answer (sess a'))"
proof -
  from reset_game_inv [OF assms(1), of r] obtain s1 where
    rs: "reset_game (sess a) r = Inr s1" and si: "session_inv s1" and bi: "board_inv s1" and
    go: "\<not> game_over s1" and e: "guesses s1 = []" "feedbacks s1 = []" "keyboard s1 = Map.empty"
    and ch: "choose_answer (words (sess a)) r = Inr (answer s1)"
    by blast
  let ?a1 = "a\<lparr>sess := s1\<rparr>"
  have first: "script_run a ClickRestart r raw = Inr (?a1, True)"
    by (simp add: script_run_def rs)
  have inv1: "app_inv ?a1" using si bi go by (simp add: app_inv_def)
  have flag: "\<not> (enter_submit ?a1 \<and> length (py_lower (py_strip raw)) = WORD_LENGTH)"
    using assms(2) by simp
  from rest_without_flag [OF inv1 flag, of r] obtain a' where
    "run_to_rest ?a1 NoClick r raw = Inr a'" and s': "sess a' = s1"
    by auto
  then have "restart a r raw = Inr a'"
    unfolding restart_def using first by (subst run_to_rest.simps) simp
  then show ?thesis using s' e go ch by simp
qed

lemma restart_after_game_over:
  assumes "app_inv a" and "game_over (sess a)"
  shows "\<exists>a'. restart a r raw = Inr a' \<and> play_again a r raw = Inr a' \<and>
     guesses (sess a') = [] \<and> feedbacks (sess a') = [] \<and>
     keyboard (sess a') = Map.empty \<and> \<not> game_over (sess a') \<and>
     choose_answer (words (sess a)) r = Inr (answer (sess a'))"
proof -
  from assms have si0: "session_inv (sess a)" and bi0: "board_inv (sess a)" and
    nf: "\<not> enter_submit a"
    by (simp_all add: app_inv_def)
  from reset_game_inv [OF si0, of r] obtain s1 where
    rs: "reset_game (sess a) r = Inr s1" and si: "session_inv s1" and bi: "board_inv s1" and
    go: "\<not> game_over s1" and e: "guesses s1 = []" "feedbacks s1 = []" "keyboard s1 = Map.empty"
    and ch: "choose_answer (words (sess a)) r = Inr (answer s1)"
    by blast
  let ?a1 = "a\<lparr>sess := s1\<rparr>"
  have first: "script_run a ClickRestart r raw = Inr (?a1, True)"
    by (simp add: script_run_def rs)
  from render_total [OF bi0] have "script_run a ClickPlayAgain r raw = main_block a ClickPlayAgain r raw"
    by (auto simp add: script_run_def)
  then have first': "script_run a ClickPlayAgain r raw = Inr (?a1, True)"
    using assms(2) by (simp add: main_block_def rs)
  have inv1: "app_inv ?a1" using si bi go by (simp add: app_inv_def)
  have flag: "\<not> (enter_submit ?a1 \<and> length (py_lower (py_strip raw)) = WORD_LENGTH)"
    using nf by simp
  from rest_without_flag [OF inv1 flag, of r] obtain a' where
    rest: "run_to_rest ?a1 NoClick r raw = Inr a'" and s': "sess a' = s1"
    by auto
  have "restart a r raw = Inr a'"
    unfolding restart_def using first rest by (subst run_to_rest.simps) simp
  moreover have "play_again a r raw = Inr a'"
    unfolding play_again_def using first' rest by (subst run_to_rest.simps) simp
  ultimately show ?thesis using s' e go ch by simp
qed

text \<open>
  With the flag set and a valid guess in the input box, the rerun that the restart starts
  submits that guess again: the restart ends with one guess scored against the new
  answer.
\<close>

lemma restart_resubmits_pending_guess:
  assumes "session_inv (sess a)" and "enter_submit a"
    and "valid_guess (py_lower (py_strip raw))"
  shows "\<exists>a'. restart a r raw = Inr a' \<and> guesses (sess a') = [py_lower (py_strip raw)] \<and>
     length (feedbacks (sess a')) = 1 \<and>
     choose_answer (words (sess a)) r = Inr (answer (sess a'))"
proof -
  let ?guess = "py_lower (py_strip raw)"
  from reset_game_inv [OF assms(1), of r] obtain s1 where
    rs: "reset_game (sess a) r = Inr s1" and si: "session_inv s1" and bi: "board_inv s1" and
    go: "\<not> game_over s1" and e: "guesses s1 = []" "feedbacks s1 = []"
    and ch: "choose_answer (words (sess a)) r = Inr (answer s1)"
    by blast
  let ?a1 = "a\<lparr>sess := s1\<rparr>"
  have first: "script_run a ClickRestart r raw = Inr (?a1, True)"
    by (simp add: script_run_def rs)
  have lg: "length ?guess = WORD_LENGTH" using assms(3) by (simp add: valid_guess_def)
  from process_guess_inv [OF go si bi, of ?guess] obtain out s2 where
    pg: "process_guess s1 ?guess = Inr (out, s2)" and si2: "session_inv s2" and
    bi2: "board_inv s2"
    by blast
  from process_guess_valid [OF assms(3), of s1] pg
  have out: "out \<noteq> InvalidGuess" and g2: "guesses s2 = [?guess]" and
    f2: "length (feedbacks s2) = 1" and a2: "answer s2 = answer s1"
    using e by (auto split: if_splits)
  let ?a2 = "a\<lparr>sess := s1, enter_submit := False, sess := s2\<rparr>"
  from render_total [OF bi] have "script_run ?a1 NoClick r raw = main_block ?a1 NoClick r raw"
    by (auto simp add: script_run_def)
  then have second: "script_run ?a1 NoClick r raw = Inr (?a2, True)"
    using go lg assms(2) pg out by (simp add: main_block_def)
  have inv2: "app_inv ?a2" using si2 bi2 by (simp add: app_inv_def)
  from rest_without_flag [OF inv2, of raw r] obtain a' where
    rest: "run_to_rest ?a2 NoClick r raw = Inr a'" and s': "sess a' = s2"
    by auto
  have "run_to_rest ?a1 NoClick r raw = Inr a'"
    using second rest by (subst run_to_rest.simps) simp
  then have "restart a r raw = Inr a'"
    unfolding restart_def using first by (subst run_to_rest.simps) simp
  then show ?thesis using s' g2 f2 a2 ch by simp
qed


end
